theory Spec2Isabelle
  imports Main "HOL-Library.AList"
begin

section \<open>Data model of the truncated hierarchical B-spline basis\<close>

text \<open>
  The development follows \<^verbatim>\<open>src/gsHSplines/gsTHBSplineBasis.h\<close>. The scalar type
  \<open>T\<close> of the class template is the type variable \<open>'a\<close>; a column \<open>u.col(pt)\<close> of the
  point matrix is a value of the type variable \<open>'p\<close>.
\<close>

datatype error =
    AccessError      \<comment> \<open>\<^verbatim>\<open>GISMO_ERROR\<close> of an accessor\<close>
  | StructuralError  \<comment> \<open>an inconsistent hierarchy or refinement request\<close>
  | OutOfRange       \<comment> \<open>a read outside a vector, a matrix or a \<^verbatim>\<open>std::map\<close>\<close>

text \<open>Sequencing of fallible steps: the first failure ends the computation.\<close>

fun bind_err :: "error + 'x \<Rightarrow> ('x \<Rightarrow> error + 'y) \<Rightarrow> error + 'y" where
  "bind_err (Inl e) f = Inl e"
| "bind_err (Inr x) f = f x"

text \<open>A checked read \<open>xs(i)\<close> of a dense vector.\<close>

definition at :: "'x list \<Rightarrow> nat \<Rightarrow> error + 'x" where
  "at xs i = (if i < length xs then Inr (xs ! i) else Inl OutOfRange)"

text \<open>
  \<^verbatim>\<open>gsSparseVector<T>\<close>: the stored entries by index; \<open>coefs(k)\<close> of an index that is
  not stored is zero.
\<close>

type_synonym 'a gsSparseVector = "(nat \<times> 'a) list"

definition coeff :: "'a::zero gsSparseVector \<Rightarrow> nat \<Rightarrow> 'a" where
  "coeff v k = (case map_of v k of None \<Rightarrow> 0 | Some c \<Rightarrow> c)"

text \<open>
  The tensor-product basis of one level, \<^verbatim>\<open>*m_bases[lvl]\<close>, as the evaluators use it:
  its values, first and second derivatives at one point (a column vector each) and the
  flat indices of the functions active there.
\<close>

record ('a, 'p) gsTensorBSplineBasis =
  tb_eval_into :: "'p \<Rightarrow> 'a list"
  tb_deriv_into :: "'p \<Rightarrow> 'a list"
  tb_deriv2_into :: "'p \<Rightarrow> 'a list"
  tb_active_into :: "'p \<Rightarrow> nat list"

text \<open>
  The basis object. \<open>m_is_truncated\<close> and \<open>m_presentation\<close> are the members declared at
  the end of the class (the \<^verbatim>\<open>std::map\<close> is an association list with one entry per
  key). The members inherited from \<^verbatim>\<open>gsHTensorBasis\<close> are fields as well: the
  template parameter \<open>d\<close>, \<open>m_bases\<close>, \<^verbatim>\<open>m_tree.getMaxInsLevel()\<close>, \<open>levelOf\<close>,
  \<open>flatTensorIndexOf\<close>, and the global ids of the functions active at a point.
\<close>

record ('a, 'p) gsTHBSplineBasis =
  dim :: nat
  m_bases :: "('a, 'p) gsTensorBSplineBasis list"
  getMaxInsLevel :: nat
  levelOf :: "nat \<Rightarrow> nat"
  flatTensorIndexOf :: "nat \<Rightarrow> nat \<Rightarrow> nat"
  activeFunctions :: "'p \<Rightarrow> nat list"
  m_is_truncated :: "int list"
  m_presentation :: "(nat \<times> 'a gsSparseVector) list"

subsection \<open>Accessors\<close>

definition numTruncated :: "('a, 'p) gsTHBSplineBasis \<Rightarrow> nat" where
  "numTruncated b = length (m_presentation b)"

definition isTruncated :: "('a, 'p) gsTHBSplineBasis \<Rightarrow> nat \<Rightarrow> error + bool" where
  "isTruncated b i = bind_err (at (m_is_truncated b) i) (\<lambda>flag. Inr (flag \<noteq> - 1))"

definition getCoefs ::
  "('a, 'p) gsTHBSplineBasis \<Rightarrow> nat \<Rightarrow> error + 'a gsSparseVector" where
  "getCoefs b i =
     bind_err (at (m_is_truncated b) i) (\<lambda>flag.
       if flag = - 1 then Inl AccessError
       else (case map_of (m_presentation b) i of
               None \<Rightarrow> Inl OutOfRange
             | Some v \<Rightarrow> Inr v))"

text \<open>The result is \<^verbatim>\<open>unsigned\<close>: a stored \<^verbatim>\<open>int\<close> is converted modulo \<open>2^32\<close>.\<close>

definition getPresLevelOfBasisFun :: "('a, 'p) gsTHBSplineBasis \<Rightarrow> nat \<Rightarrow> error + nat" where
  "getPresLevelOfBasisFun b index =
     bind_err (at (m_is_truncated b) index) (\<lambda>flag.
       if flag = - 1 then Inr (levelOf b index)
       else Inr (nat (flag mod 2 ^ 32)))"

section \<open>The level-caching evaluators\<close>

text \<open>A dense matrix: its number of rows and its columns, first to last.\<close>

datatype 'x gsMatrix = Matrix (rows: nat) (columns: "'x list list")

text \<open>
  Modelled from the spec: \<^verbatim>\<open>gsHTensorBasis::active_into\<close>, which the evaluators call
  and which is not among the sources. The spec gives its result as the matrix of global
  ids, one column per point, where "short columns are padded with a sentinel"; the
  sentinel is the \<open>0\<close> the evaluators test for.
\<close>

definition active_into :: "('a, 'p) gsTHBSplineBasis \<Rightarrow> 'p list \<Rightarrow> nat gsMatrix" where
  "active_into b u =
     (let temp_output = map (activeFunctions b) u;
          sz = fold max (map length temp_output) 0
      in Matrix sz (map (\<lambda>c. c @ replicate (sz - length c) 0) temp_output))"

text \<open>
  \<open>fastEval_into\<close>, \<open>fastDeriv_into\<close> and \<open>fastDeriv2_into\<close> are the same two nested loops;
  they differ in the tensor-basis routine they call, in the number of result rows per
  function (\<open>1\<close>, \<open>d\<close>, \<open>d * (d + 1) / 2\<close>) and in how the truncated branch sums. The
  derivative order \<open>ord\<close> (\<open>0\<close>, \<open>1\<close>, \<open>2\<close>) selects among them.
\<close>

definition numDers :: "nat \<Rightarrow> nat \<Rightarrow> nat" where
  "numDers ord d = (if ord = 0 then 1 else if ord = 1 then d else (d * (d + 1)) div 2)"

definition tb_values :: "nat \<Rightarrow> ('a, 'p) gsTensorBSplineBasis \<Rightarrow> 'p \<Rightarrow> 'a list" where
  "tb_values ord B p =
     (if ord = 0 then tb_eval_into B p
      else if ord = 1 then tb_deriv_into B p
      else tb_deriv2_into B p)"

text \<open>The scratch vectors \<open>tmpResults\<close> (\<open>tmpDeriv\<close>, \<open>tmpDeriv2\<close>), \<open>tmpActive\<close>, \<open>processed\<close>.\<close>

record 'a scratch =
  tmpResults :: "'a list list"
  tmpActive :: "nat list list"
  processed :: "int list"

text \<open>\<^verbatim>\<open>if (processed(lvl) == 0) { ... processed(lvl) = 1; }\<close>\<close>

definition fill_level ::
  "('a, 'p) gsTHBSplineBasis \<Rightarrow> nat \<Rightarrow> 'p \<Rightarrow> nat \<Rightarrow> 'a scratch \<Rightarrow> error + 'a scratch" where
  "fill_level b ord p lvl s =
     bind_err (at (processed s) lvl) (\<lambda>seen.
       if seen = 0 then
         bind_err (at (m_bases b) lvl) (\<lambda>B.
           Inr (s\<lparr>tmpResults := (tmpResults s)[lvl := tb_values ord B p],
                  tmpActive := (tmpActive s)[lvl := tb_active_into B p],
                  processed := (processed s)[lvl := 1]\<rparr>))
       else Inr s)"

text \<open>The search for \<open>localIndex\<close>: the first row of \<open>tmpActive[lvl]\<close> holding the flat index, or \<open>-1\<close>.\<close>

fun localIndex_loop :: "nat list \<Rightarrow> nat \<Rightarrow> nat \<Rightarrow> int" where
  "localIndex_loop [] flatTenIndx row = - 1"
| "localIndex_loop (a # as) flatTenIndx row =
     (if a = flatTenIndx then int row else localIndex_loop as flatTenIndx (Suc row))"

text \<open>\<open>m.block(start, 0, n, 1)\<close> of a column vector, read and written.\<close>

definition block :: "'x list \<Rightarrow> int \<Rightarrow> nat \<Rightarrow> error + 'x list" where
  "block xs start n =
     (if 0 \<le> start \<and> nat start + n \<le> length xs then Inr (take n (drop (nat start) xs))
      else Inl OutOfRange)"

definition write_block :: "'x list \<Rightarrow> nat \<Rightarrow> 'x list \<Rightarrow> error + 'x list" where
  "write_block xs start blk =
     (if start + length blk \<le> length xs
      then Inr (take start xs @ blk @ drop (start + length blk) xs)
      else Inl OutOfRange)"

text \<open>
  The innermost loop of a truncated function, over the rows \<open>i\<close> of \<open>active\<close> that remain:
  \<^verbatim>\<open>tmp += coefs(active(i, 0)) * basis(i * numDers + der, 0)\<close>.
\<close>

fun accumulate ::
  "'a::{zero,plus,times} gsSparseVector \<Rightarrow> 'a list \<Rightarrow> nat \<Rightarrow> nat \<Rightarrow> nat list \<Rightarrow> nat \<Rightarrow> 'a
     \<Rightarrow> error + 'a" where
  "accumulate coefs basis nd der [] i tmp = Inr tmp"
| "accumulate coefs basis nd der (a # as) i tmp =
     bind_err (at basis (i * nd + der)) (\<lambda>v.
       accumulate coefs basis nd der as (Suc i) (tmp + coeff coefs a * v))"

text \<open>
  \<open>fastEval_into\<close>: \<^verbatim>\<open>T tmp = coefs(active(0, 0)) * basis(0, 0);\<close> and the loop from row \<open>1\<close>.
\<close>

definition truncated_value ::
  "'a::{zero,plus,times} gsSparseVector \<Rightarrow> nat list \<Rightarrow> 'a list \<Rightarrow> error + 'a" where
  "truncated_value coefs active basis =
     bind_err (at active 0) (\<lambda>a0.
     bind_err (at basis 0) (\<lambda>v0.
       accumulate coefs basis 1 0 (tl active) 1 (coeff coefs a0 * v0)))"

text \<open>
  \<open>fastDeriv_into\<close>, \<open>fastDeriv2_into\<close>: the loop over the derivatives \<open>der\<close> that remain,
  each adding to \<^verbatim>\<open>result(ind * numDers + der, pt)\<close>.
\<close>

fun der_loop ::
  "'a::{zero,plus,times} gsSparseVector \<Rightarrow> nat list \<Rightarrow> 'a list \<Rightarrow> nat \<Rightarrow> nat \<Rightarrow> nat list
     \<Rightarrow> 'a list \<Rightarrow> error + 'a list" where
  "der_loop coefs active basis nd ind [] col = Inr col"
| "der_loop coefs active basis nd ind (der # ders) col =
     bind_err (at col (ind * nd + der)) (\<lambda>old.
     bind_err (accumulate coefs basis nd der active 0 old) (\<lambda>new.
       der_loop coefs active basis nd ind ders (col[ind * nd + der := new])))"

text \<open>
  The body of the loop over \<open>ind\<close>, after the test for the sentinel: \<open>col\<close> is column \<open>pt\<close>
  of \<open>result\<close>, \<open>p\<close> is \<open>u.col(pt)\<close> and \<open>index\<close> is \<open>indices(ind, pt)\<close>.
\<close>

definition entry_step ::
  "('a::{zero,plus,times}, 'p) gsTHBSplineBasis \<Rightarrow> nat \<Rightarrow> 'p \<Rightarrow> nat \<Rightarrow> nat
     \<Rightarrow> 'a list \<times> 'a scratch \<Rightarrow> error + 'a list \<times> 'a scratch" where
  "entry_step b ord p ind index st =
     (let col = fst st; s = snd st; nd = numDers ord (dim b) in
      bind_err (getPresLevelOfBasisFun b index) (\<lambda>lvl.
      bind_err (fill_level b ord p lvl s) (\<lambda>s'.
      bind_err (at (m_is_truncated b) index) (\<lambda>flag.
      bind_err (at (tmpResults s') lvl) (\<lambda>basis.
      bind_err (at (tmpActive s') lvl) (\<lambda>active.
        if flag = - 1 then
          (let flatTenIndx = flatTensorIndexOf b index lvl;
               localIndex = localIndex_loop active flatTenIndx 0 in
           bind_err (block basis (localIndex * int nd) nd) (\<lambda>blk.
           bind_err (write_block col (ind * nd) blk) (\<lambda>col'. Inr (col', s'))))
        else
          bind_err (getCoefs b index) (\<lambda>coefs.
            if ord = 0 then
              bind_err (truncated_value coefs active basis) (\<lambda>tmp.
              bind_err (write_block col ind [tmp]) (\<lambda>col'. Inr (col', s')))
            else
              bind_err (der_loop coefs active basis nd ind [0..<nd] col) (\<lambda>col'.
                Inr (col', s')))))))))"

text \<open>
  The loop over \<open>ind\<close>, on the entries of column \<open>pt\<close> of \<open>indices\<close> from row \<open>ind\<close> on:
  \<^verbatim>\<open>if (ind != 0 && index == 0) break;\<close>
\<close>

fun ind_loop ::
  "('a::{zero,plus,times}, 'p) gsTHBSplineBasis \<Rightarrow> nat \<Rightarrow> 'p \<Rightarrow> nat \<Rightarrow> nat list
     \<Rightarrow> 'a list \<times> 'a scratch \<Rightarrow> error + 'a list \<times> 'a scratch" where
  "ind_loop b ord p ind [] st = Inr st"
| "ind_loop b ord p ind (index # rest) st =
     (if ind \<noteq> 0 \<and> index = 0 then Inr st
      else bind_err (entry_step b ord p ind index st) (ind_loop b ord p (Suc ind) rest))"

text \<open>
  The loop over the points. \<open>processed.setZero()\<close> starts each point; the other scratch
  vectors keep what the previous point left. The column of \<open>result\<close> starts as the zeros
  of \<^verbatim>\<open>result.setZero(...)\<close>. \<open>n\<close> is \<open>indices.rows()\<close>.
\<close>

fun pt_loop ::
  "('a::{zero,plus,times}, 'p) gsTHBSplineBasis \<Rightarrow> nat \<Rightarrow> nat \<Rightarrow> ('p \<times> nat list) list
     \<Rightarrow> 'a scratch \<Rightarrow> error + 'a list list" where
  "pt_loop b ord n [] s = Inr []"
| "pt_loop b ord n (pc # rest) s =
     bind_err
       (ind_loop b ord (fst pc) 0 (snd pc)
          (replicate (n * numDers ord (dim b)) 0,
           s\<lparr>processed := replicate (length (processed s)) 0\<rparr>))
       (\<lambda>st. bind_err (pt_loop b ord n rest (snd st)) (\<lambda>cols. Inr (fst st # cols)))"

text \<open>
  The evaluator of order \<open>ord\<close>. \<open>indices\<close> has a column for each point of \<open>u\<close>; the scratch
  vectors have \<open>maxLvl\<close> entries. The source leaves the entries of \<open>processed\<close> as they are
  until \<open>processed.setZero()\<close>; here they start as zeros.
\<close>

definition fast_into ::
  "('a::{zero,plus,times}, 'p) gsTHBSplineBasis \<Rightarrow> nat \<Rightarrow> 'p list \<Rightarrow> error + 'a gsMatrix" where
  "fast_into b ord u =
     (let indices = active_into b u;
          maxLvl = getMaxInsLevel b + 1;
          s = \<lparr>tmpResults = replicate maxLvl [], tmpActive = replicate maxLvl [],
               processed = replicate maxLvl 0\<rparr>
      in bind_err (pt_loop b ord (rows indices) (zip u (columns indices)) s) (\<lambda>cols.
           Inr (Matrix (rows indices * numDers ord (dim b)) cols)))"

definition fastEval_into ::
  "('a::{zero,plus,times}, 'p) gsTHBSplineBasis \<Rightarrow> 'p list \<Rightarrow> error + 'a gsMatrix" where
  "fastEval_into b u = fast_into b 0 u"

definition fastDeriv_into ::
  "('a::{zero,plus,times}, 'p) gsTHBSplineBasis \<Rightarrow> 'p list \<Rightarrow> error + 'a gsMatrix" where
  "fastDeriv_into b u = fast_into b 1 u"

definition fastDeriv2_into ::
  "('a::{zero,plus,times}, 'p) gsTHBSplineBasis \<Rightarrow> 'p list \<Rightarrow> error + 'a gsMatrix" where
  "fastDeriv2_into b u = fast_into b 2 u"

section \<open>What the evaluators compute\<close>

text \<open>
  The rows the loop over \<open>ind\<close> reaches: row \<open>0\<close>, and the rows after it up to the first
  whose index is \<open>0\<close>.
\<close>

definition processed_prefix :: "nat list \<Rightarrow> nat list" where
  "processed_prefix column =
     (case column of [] \<Rightarrow> [] | index # rest \<Rightarrow> index # takeWhile (\<lambda>i. i \<noteq> 0) rest)"

text \<open>
  The rows one pass of the loop body writes for the function \<open>index\<close> at the point \<open>p\<close>:
  the loop body with \<open>tmpResults[lvl]\<close> and \<open>tmpActive[lvl]\<close> read from the tensor basis of
  the level, on rows that are zero before.
\<close>

definition entry_block ::
  "('a::{zero,plus,times}, 'p) gsTHBSplineBasis \<Rightarrow> nat \<Rightarrow> 'p \<Rightarrow> nat \<Rightarrow> error + 'a list" where
  "entry_block b ord p index =
     (let nd = numDers ord (dim b) in
      bind_err (getPresLevelOfBasisFun b index) (\<lambda>lvl.
      bind_err (at (m_bases b) lvl) (\<lambda>B.
      bind_err (at (m_is_truncated b) index) (\<lambda>flag.
        if flag = - 1 then
          block (tb_values ord B p)
            (localIndex_loop (tb_active_into B p) (flatTensorIndexOf b index lvl) 0 * int nd) nd
        else
          bind_err (getCoefs b index) (\<lambda>coefs.
            if ord = 0 then
              bind_err (truncated_value coefs (tb_active_into B p) (tb_values ord B p))
                (\<lambda>tmp. Inr [tmp])
            else
              der_loop coefs (tb_active_into B p) (tb_values ord B p) nd 0 [0..<nd]
                (replicate nd 0))))))"

text \<open>The blocks of a list of functions, one after the other; the first failure ends it.\<close>

fun collect :: "(nat \<Rightarrow> error + 'x list) \<Rightarrow> nat list \<Rightarrow> error + 'x list" where
  "collect f [] = Inr []"
| "collect f (i # is) =
     bind_err (f i) (\<lambda>blk. bind_err (collect f is) (\<lambda>r. Inr (blk @ r)))"

text \<open>
  The terms of the dot product of a sparse coefficient vector with the values of a level
  at a point, for derivative component \<open>der\<close> of \<open>nd\<close>: the products
  \<open>coefs(active(i)) * basis(i * nd + der)\<close> of the rows \<open>i\<close> of \<open>active\<close>, first row first.
\<close>

definition products ::
  "'a::{zero,times} gsSparseVector \<Rightarrow> nat list \<Rightarrow> 'a list \<Rightarrow> nat \<Rightarrow> nat \<Rightarrow> 'a list" where
  "products coefs active basis nd der =
     map (\<lambda>i. coeff coefs (active ! i) * basis ! (i * nd + der)) [0..<length active]"

text \<open>
  Their sum in the order the source adds them, with no law of arithmetic used, so that it
  is the sum of a floating-point \<open>T\<close> as well. \<open>fastEval_into\<close> starts \<open>tmp\<close> with the first
  product and adds the others to it, one row after the other. \<open>fastDeriv_into\<close> and
  \<open>fastDeriv2_into\<close> add every product, the first one too, to the entry of the result,
  which \<open>setZero\<close> made zero.
\<close>

definition sum_from_first :: "'a::{zero,plus} list \<Rightarrow> 'a" where
  "sum_from_first ps = (case ps of [] \<Rightarrow> 0 | t # ts \<Rightarrow> foldl (+) t ts)"

definition sum_onto_zero :: "'a::{zero,plus} list \<Rightarrow> 'a" where
  "sum_onto_zero ps = foldl (+) 0 ps"

text \<open>The sum that the evaluator of order \<open>ord\<close> writes for a truncated function.\<close>

definition linear_combination ::
  "nat \<Rightarrow> 'a::{zero,plus,times} gsSparseVector \<Rightarrow> nat list \<Rightarrow> 'a list \<Rightarrow> nat \<Rightarrow> nat \<Rightarrow> 'a" where
  "linear_combination ord coefs active basis nd der =
     (if ord = 0 then sum_from_first (products coefs active basis nd der)
      else sum_onto_zero (products coefs active basis nd der))"

text \<open>
  The scratch vectors hold, for every level marked in \<open>processed\<close>, what the tensor basis of
  that level gives at the point \<open>p\<close>.
\<close>

definition cache_ok ::
  "('a, 'p) gsTHBSplineBasis \<Rightarrow> nat \<Rightarrow> 'p \<Rightarrow> 'a scratch \<Rightarrow> bool" where
  "cache_ok b ord p s =
     (length (tmpResults s) = length (processed s) \<and>
      length (tmpActive s) = length (processed s) \<and>
      (\<forall>lvl < length (processed s). processed s ! lvl \<noteq> 0 \<longrightarrow>
         lvl < length (m_bases b) \<and>
         tmpResults s ! lvl = tb_values ord (m_bases b ! lvl) p \<and>
         tmpActive s ! lvl = tb_active_into (m_bases b ! lvl) p))"

section \<open>Inputs the evaluators read in range\<close>

text \<open>
  What a fast evaluator of order \<open>ord\<close> needs of a function \<open>index\<close> at a point \<open>p\<close> to read
  every vector in range: the id is one of the basis, its presentation level is one of the
  levels, the tensor basis of that level gives \<open>nd\<close> rows for each of its active functions
  and has an active function, a native function is among the active functions of its
  level, and a truncated one has its entry in \<open>m_presentation\<close>.
\<close>

definition entry_in_range ::
  "('a, 'p) gsTHBSplineBasis \<Rightarrow> nat \<Rightarrow> 'p \<Rightarrow> nat \<Rightarrow> bool" where
  "entry_in_range b ord p index =
     (index < length (m_is_truncated b) \<and>
      (let flag = m_is_truncated b ! index;
           lvl = (if flag = - 1 then levelOf b index else nat (flag mod 2 ^ 32))
       in lvl \<le> getMaxInsLevel b \<and> lvl < length (m_bases b) \<and>
          (let B = m_bases b ! lvl; active = tb_active_into B p
           in length (tb_values ord B p) = length active * numDers ord (dim b) \<and>
              active \<noteq> [] \<and>
              (if flag = - 1 then flatTensorIndexOf b index lvl \<in> set active
               else map_of (m_presentation b) index \<noteq> None))))"

text \<open>
  Points the evaluators are defined on: every point has a candidate function, the id
  \<open>0\<close> is at most the first of its candidates (the ids of a point ascend), and every
  candidate is read in range.
\<close>

definition evaluable :: "('a, 'p) gsTHBSplineBasis \<Rightarrow> nat \<Rightarrow> 'p list \<Rightarrow> bool" where
  "evaluable b ord u =
     (\<forall>p \<in> set u. activeFunctions b p \<noteq> [] \<and> 0 \<notin> set (tl (activeFunctions b p)) \<and>
        (\<forall>index \<in> set (activeFunctions b p). entry_in_range b ord p index))"

section \<open>The evaluators and their scratch vectors\<close>

text \<open>
  The two loops of a fast evaluator, started on given scratch vectors. \<open>fast_into\<close> starts
  them on vectors of \<open>maxLvl\<close> entries, which the constructors of \<open>tmpResults\<close> and
  \<open>tmpActive\<close> fill with empty matrices and that of \<open>processed\<close> leaves as they are.
\<close>

definition fast_from ::
  "('a::{zero,plus,times}, 'p) gsTHBSplineBasis \<Rightarrow> nat \<Rightarrow> 'p list \<Rightarrow> 'a scratch
     \<Rightarrow> error + 'a gsMatrix" where
  "fast_from b ord u s =
     (let indices = active_into b u
      in bind_err (pt_loop b ord (rows indices) (zip u (columns indices)) s) (\<lambda>cols.
           Inr (Matrix (rows indices * numDers ord (dim b)) cols)))"

definition scratch_sized :: "('a, 'p) gsTHBSplineBasis \<Rightarrow> 'a scratch \<Rightarrow> bool" where
  "scratch_sized b s =
     (length (tmpResults s) = getMaxInsLevel b + 1 \<and>
      length (tmpActive s) = getMaxInsLevel b + 1 \<and>
      length (processed s) = getMaxInsLevel b + 1)"

text \<open>Two scratch states that agree on the levels marked in \<open>processed\<close>.\<close>

definition same_cache :: "'a scratch \<Rightarrow> 'a scratch \<Rightarrow> bool" where
  "same_cache s t =
     (processed s = processed t \<and>
      length (tmpResults s) = length (processed s) \<and>
      length (tmpResults t) = length (processed s) \<and>
      length (tmpActive s) = length (processed s) \<and>
      length (tmpActive t) = length (processed s) \<and>
      (\<forall>lvl < length (processed s). processed s ! lvl \<noteq> 0 \<longrightarrow>
         tmpResults s ! lvl = tmpResults t ! lvl \<and>
         tmpActive s ! lvl = tmpActive t ! lvl))"

section \<open>The truncation engine\<close>

text \<open>
  Modelled from the spec: \<open>representBasis\<close>, which rebuilds \<open>m_is_truncated\<close> and
  \<open>m_presentation\<close>, is declared in the header and defined in a file that is not among the
  sources. The model follows the algorithm of the spec (4.2), per function of native
  level \<open>k\<close>: (1) express it by knot insertion in the functions of level \<open>k + 1\<close>; (2) zero
  every coefficient whose function of level \<open>k + 1\<close> is active in the mesh; (3) if a
  zeroed coefficient's function is refined again at the next level, repeat on the
  truncated vector, "until reaching a level where no further refinement overlaps the
  remaining non-zero support, or until \<open>maxLevel()\<close> is reached"; (4) "store the final
  non-zero coefficient vector keyed by flat index at the last level reached (the
  presentation level); if no coefficient was ever truncated, the function remains Native
  (no entry stored)". A truncation that removes all coefficients is a \<open>StructuralError\<close>.

  What the engine consumes of the hierarchy and of the tensor bases (spec, 6): the number
  of basis functions, exact knot insertion from a level to the next, the active functions
  of a level, and whether the region of a function of a level is refined again.
\<close>

record 'a refinement_structure =
  numFunctions :: nat
  knotInsertion :: "nat \<Rightarrow> 'a gsSparseVector \<Rightarrow> 'a gsSparseVector"
  activeAt :: "nat \<Rightarrow> nat \<Rightarrow> bool"
  refinedAgain :: "nat \<Rightarrow> nat \<Rightarrow> bool"

text \<open>
  The presentation of a function (spec, 3): Native, evaluated at its native level, or
  Truncated, with its presentation level and the coefficients stored for it.
\<close>

datatype 'a presentation = Native | Truncated nat "'a gsSparseVector"

text \<open>
  Steps 1 to 3, from the coefficients \<open>coefs\<close> at level \<open>k\<close>: the level reached, the
  coefficients kept there, and whether a coefficient was zeroed (\<open>tr\<close>: whether one was
  before).
\<close>

function truncation_loop ::
  "'a refinement_structure \<Rightarrow> nat \<Rightarrow> nat \<Rightarrow> 'a gsSparseVector \<Rightarrow> bool
     \<Rightarrow> nat \<times> 'a gsSparseVector \<times> bool" where
  "truncation_loop h maxL k coefs tr =
     (let fine = knotInsertion h k coefs;
          zeroed = filter (\<lambda>jc. activeAt h (Suc k) (fst jc)) fine;
          kept = filter (\<lambda>jc. \<not> activeAt h (Suc k) (fst jc)) fine;
          tr' = (tr \<or> zeroed \<noteq> [])
      in if Suc k < maxL \<and> (\<exists>jc \<in> set zeroed. refinedAgain h (Suc k) (fst jc))
         then truncation_loop h maxL (Suc k) kept tr'
         else (Suc k, kept, tr'))"
  by pat_completeness auto
termination
  by (relation "measure (\<lambda>(h, maxL, k, coefs, tr). maxL - k)") auto

declare truncation_loop.simps [simp del]

text \<open>The presentation of function \<open>j\<close> (step 4). A function of the deepest level is Native.\<close>

definition represent_function ::
  "'a::{zero,one} refinement_structure \<Rightarrow> ('a, 'p) gsTHBSplineBasis \<Rightarrow> nat
     \<Rightarrow> error + 'a presentation" where
  "represent_function h b j =
     (let k = levelOf b j in
      if getMaxInsLevel b \<le> k then Inr Native
      else
        (case truncation_loop h (getMaxInsLevel b) k [(flatTensorIndexOf b j k, 1)] False of
           (lvl, coefs, tr) \<Rightarrow>
             if \<not> tr then Inr Native
             else
               (let nonzero = filter (\<lambda>jc. snd jc \<noteq> 0) coefs in
                if nonzero = [] then Inl StructuralError
                else Inr (Truncated lvl nonzero))))"

text \<open>
  The flags and the entries of the functions \<open>js\<close>: the flag of a Native function is
  \<open>-1\<close>, that of a truncated one is its presentation level.
\<close>

fun represent_from ::
  "'a::{zero,one} refinement_structure \<Rightarrow> ('a, 'p) gsTHBSplineBasis \<Rightarrow> nat list
     \<Rightarrow> error + int list \<times> (nat \<times> 'a gsSparseVector) list" where
  "represent_from h b [] = Inr ([], [])"
| "represent_from h b (j # js) =
     bind_err (represent_function h b j) (\<lambda>pres.
     bind_err (represent_from h b js) (\<lambda>r.
       case pres of
         Native \<Rightarrow> Inr (- 1 # fst r, snd r)
       | Truncated lvl coefs \<Rightarrow> Inr (int lvl # fst r, (j, coefs) # snd r)))"

definition representBasis ::
  "'a::{zero,one} refinement_structure \<Rightarrow> ('a, 'p) gsTHBSplineBasis
     \<Rightarrow> error + ('a, 'p) gsTHBSplineBasis" where
  "representBasis h b =
     bind_err (represent_from h b [0..<numFunctions h]) (\<lambda>r.
       Inr (b\<lparr>m_is_truncated := fst r, m_presentation := snd r\<rparr>))"

section \<open>The level hierarchy\<close>

text \<open>
  Modelled from the spec: \<open>refine\<close> and the active sets belong to the base class
  \<^verbatim>\<open>gsHTensorBasis\<close>, which is not among the sources. The spec (3, 4.1, 6): a box is
  axis-aligned in index space, given by its low and its high index in each direction; a
  refinement is a tuple \<open>(level, lowIndex, highIndex)\<close>; every cell of the domain has one
  level; \<open>refine(box, targetLevel)\<close> "marks \<open>box\<close> active at \<open>targetLevel\<close>; fails with
  \<open>StructuralError\<close> if \<open>targetLevel\<close> is not exactly one level finer than the coarsest
  currently-active level overlapping \<open>box\<close>, or if \<open>box\<close> lies outside the domain", and a
  failed call leaves the hierarchy as it was (7). The level of a cell is the deepest level
  of a box marked over it, level \<open>0\<close> where there is none: refinement never coarsens.
\<close>

type_synonym box = "nat list \<times> nat list"

record levelHierarchy =
  domainBox :: box
  activeBoxes :: "(nat \<times> box) list"

definition box_inside :: "box \<Rightarrow> box \<Rightarrow> bool" where
  "box_inside bx outer =
     (list_all2 (\<le>) (fst outer) (fst bx) \<and> list_all2 (\<le>) (snd bx) (snd outer))"

definition cell_in :: "nat list \<Rightarrow> box \<Rightarrow> bool" where
  "cell_in c bx = (list_all2 (\<le>) (fst bx) c \<and> list_all2 (<) c (snd bx))"

definition cells_of :: "box \<Rightarrow> nat list list" where
  "cells_of bx = product_lists (map (\<lambda>lh. [fst lh..<snd lh]) (zip (fst bx) (snd bx)))"

definition levelAt :: "levelHierarchy \<Rightarrow> nat list \<Rightarrow> nat" where
  "levelAt h c = fold max (map fst (filter (\<lambda>lb. cell_in c (snd lb)) (activeBoxes h))) 0"

definition coarsestLevel :: "levelHierarchy \<Rightarrow> box \<Rightarrow> nat option" where
  "coarsestLevel h bx =
     (case map (levelAt h) (cells_of bx) of
        [] \<Rightarrow> None
      | l # ls \<Rightarrow> Some (fold min ls l))"

definition maxLevel :: "levelHierarchy \<Rightarrow> nat" where
  "maxLevel h = fold max (map fst (activeBoxes h)) 0"

text \<open>The outcome of the call and the hierarchy after it.\<close>

definition refine ::
  "levelHierarchy \<Rightarrow> box \<Rightarrow> nat \<Rightarrow> (error + unit) \<times> levelHierarchy" where
  "refine h bx targetLevel =
     (if \<not> box_inside bx (domainBox h) then (Inl StructuralError, h)
      else
        (case coarsestLevel h bx of
           None \<Rightarrow> (Inl StructuralError, h)
         | Some l \<Rightarrow>
             if targetLevel = Suc l
             then (Inr (), h\<lparr>activeBoxes := activeBoxes h @ [(targetLevel, bx)]\<rparr>)
             else (Inl StructuralError, h)))"

text \<open>
  Scenario B of the spec: the domain \<open>[0,8] \<times> [0,8]\<close> at level \<open>0\<close>, with the box
  \<open>[2,6] \<times> [2,6]\<close> refined to level \<open>1\<close>.
\<close>

definition ex_hierarchy :: levelHierarchy where
  "ex_hierarchy = \<lparr>domainBox = ([0, 0], [8, 8]), activeBoxes = [(1, ([2, 2], [6, 6]))]\<rparr>"

section \<open>The invariant of the truncation cache\<close>

text \<open>
  The comments at the declarations of \<open>m_is_truncated\<close> and \<open>m_presentation\<close>: the flag of
  function \<open>j\<close> is \<open>-1\<close> exactly when \<open>m_presentation\<close> has no entry for \<open>j\<close>.
\<close>

definition presentation_inv :: "('a, 'p) gsTHBSplineBasis \<Rightarrow> bool" where
  "presentation_inv b =
     (\<forall>i < length (m_is_truncated b).
        (m_is_truncated b ! i \<noteq> - 1) = (map_of (m_presentation b) i \<noteq> None))"

section \<open>A two-level example\<close>

text \<open>
  A basis of dimension one on two levels, at points \<open>0\<close> and \<open>1\<close>. Functions \<open>0\<close>, \<open>1\<close>, \<open>2\<close>
  are native to level \<open>0\<close> and function \<open>1\<close> is truncated to level \<open>1\<close>; functions \<open>3\<close>,
  \<open>4\<close>, \<open>5\<close> are native to level \<open>1\<close>, with flat indices \<open>1\<close>, \<open>2\<close>, \<open>3\<close>.
\<close>

definition ex_level0 :: "(int, nat) gsTensorBSplineBasis" where
  "ex_level0 =
     \<lparr>tb_eval_into = (\<lambda>p. [1, 2]), tb_deriv_into = (\<lambda>p. [10, 20]),
      tb_deriv2_into = (\<lambda>p. [100, 200]), tb_active_into = (\<lambda>p. [p, p + 1])\<rparr>"

definition ex_level1 :: "(int, nat) gsTensorBSplineBasis" where
  "ex_level1 =
     \<lparr>tb_eval_into = (\<lambda>p. [3, 4]), tb_deriv_into = (\<lambda>p. [30, 40]),
      tb_deriv2_into = (\<lambda>p. [300, 400]), tb_active_into = (\<lambda>p. [2 * p, 2 * p + 1])\<rparr>"

definition ex_basis :: "(int, nat) gsTHBSplineBasis" where
  "ex_basis =
     \<lparr>dim = 1, m_bases = [ex_level0, ex_level1], getMaxInsLevel = 1,
      levelOf = (\<lambda>i. if i < 3 then 0 else 1),
      flatTensorIndexOf = (\<lambda>i l. if l = 0 then i else i - 2),
      activeFunctions = (\<lambda>p. if p = 0 then [0, 1] else [1, 2, 4]),
      m_is_truncated = [- 1, 1, - 1, - 1, - 1, - 1],
      m_presentation = [(1, [(2, 5), (3, 7)])]\<rparr>"

text \<open>
  A refinement structure for the example: six functions; knot insertion takes function
  \<open>j\<close> of a level to the functions \<open>2 * j\<close>, \<open>2 * j + 1\<close> and \<open>j + 8\<close> of the next, with
  factors \<open>5\<close>, \<open>7\<close> and \<open>3\<close>; function \<open>9\<close> of level \<open>1\<close> is active.
\<close>

definition ex_structure :: "int refinement_structure" where
  "ex_structure =
     \<lparr>numFunctions = 6,
      knotInsertion = (\<lambda>k coefs.
         concat (map (\<lambda>jc. [(2 * fst jc, 5 * snd jc), (2 * fst jc + 1, 7 * snd jc),
                             (fst jc + 8, 3 * snd jc)]) coefs)),
      activeAt = (\<lambda>k j. k = 1 \<and> j = 9),
      refinedAgain = (\<lambda>k j. False)\<rparr>"

text \<open>Two states of the scratch vectors for the example, with values left in them.\<close>

definition ex_scratch :: "int scratch" where
  "ex_scratch = \<lparr>tmpResults = [[7], [8, 9]], tmpActive = [[5], [6]], processed = [3, - 2]\<rparr>"

definition ex_scratch' :: "int scratch" where
  "ex_scratch' = \<lparr>tmpResults = [[], [1]], tmpActive = [[], []], processed = [0, 1]\<rparr>"

section \<open>Properties of the accessors\<close>

lemma at_Inr_iff: "at xs i = Inr x \<longleftrightarrow> i < length xs \<and> xs ! i = x"
  by (auto simp: at_def)

lemma bind_err_Inr_iff: "bind_err m f = Inr y \<longleftrightarrow> (\<exists>x. m = Inr x \<and> f x = Inr y)"
  by (cases m) auto

lemma presentation_inv_ex_basis: "presentation_inv ex_basis"
  by (simp add: presentation_inv_def ex_basis_def less_Suc_eq)

text \<open>
  C4. For a basis function id \<open>i\<close> (an index of \<open>m_is_truncated\<close>) of a basis whose cache
  satisfies its invariant, \<open>getCoefs i\<close> fails with \<open>AccessError\<close> if and only if
  \<open>isTruncated i\<close> is false; when \<open>isTruncated i\<close> is true, \<open>getCoefs i\<close> returns the
  sparse vector stored for \<open>i\<close> in \<open>m_presentation\<close>, without error.
\<close>

theorem getCoefs_AccessError_iff:
  assumes "i < length (m_is_truncated b)" and "presentation_inv b"
  shows "(getCoefs b i = Inl AccessError \<longleftrightarrow> isTruncated b i = Inr False) \<and>
         (isTruncated b i = Inr True \<longrightarrow>
            (\<exists>v. map_of (m_presentation b) i = Some v \<and> getCoefs b i = Inr v))"
proof (cases "m_is_truncated b ! i = - 1")
  case True
  with assms(1) show ?thesis
    by (simp add: getCoefs_def isTruncated_def at_def)
next
  case False
  with assms obtain v where "map_of (m_presentation b) i = Some v"
    by (auto simp: presentation_inv_def)
  with False assms(1) show ?thesis
    by (simp add: getCoefs_def isTruncated_def at_def)
qed

theorem getCoefs_AccessError_iff_witness:
  "1 < length (m_is_truncated ex_basis) \<and> presentation_inv ex_basis \<and>
   isTruncated ex_basis 1 = Inr True \<and> getCoefs ex_basis 1 = Inr [(2, 5), (3, 7)] \<and>
   isTruncated ex_basis 0 = Inr False \<and> getCoefs ex_basis 0 = Inl AccessError"
  using getCoefs_AccessError_iff [of 1 ex_basis] getCoefs_AccessError_iff [of 0 ex_basis]
    presentation_inv_ex_basis
  by (simp add: ex_basis_def isTruncated_def at_def)

section \<open>The loops of the level-caching evaluators\<close>

lemma fill_level_cache_ok:
  assumes "cache_ok b ord p s" and "fill_level b ord p lvl s = Inr s'"
  shows "cache_ok b ord p s' \<and> length (processed s') = length (processed s) \<and>
         lvl < length (m_bases b) \<and>
         at (tmpResults s') lvl = Inr (tb_values ord (m_bases b ! lvl) p) \<and>
         at (tmpActive s') lvl = Inr (tb_active_into (m_bases b ! lvl) p)"
proof -
  from assms(2) have lvl: "lvl < length (processed s)"
    by (auto simp: fill_level_def bind_err_Inr_iff at_Inr_iff)
  show ?thesis
  proof (cases "processed s ! lvl = 0")
    case True
    with assms(2) lvl have B: "lvl < length (m_bases b)"
      and s': "s' = s\<lparr>tmpResults := (tmpResults s)[lvl := tb_values ord (m_bases b ! lvl) p],
                  tmpActive := (tmpActive s)[lvl := tb_active_into (m_bases b ! lvl) p],
                  processed := (processed s)[lvl := 1]\<rparr>"
      by (auto simp: fill_level_def bind_err_Inr_iff at_Inr_iff)
    with assms(1) lvl show ?thesis
      by (auto simp: cache_ok_def at_def nth_list_update)
  next
    case False
    with assms(2) lvl have "s' = s"
      by (auto simp: fill_level_def bind_err_Inr_iff at_Inr_iff)
    with assms(1) lvl False show ?thesis
      by (auto simp: cache_ok_def at_def)
  qed
qed

lemma der_loop_length:
  "der_loop coefs active basis nd ind ders col = Inr col' \<Longrightarrow> length col' = length col"
  by (induction ders arbitrary: col) (auto simp: bind_err_Inr_iff)

lemma der_loop_frame:
  assumes "length pre = ind * nd" and "length blk = nd" and "\<forall>der \<in> set ders. der < nd"
  shows "der_loop coefs active basis nd ind ders (pre @ blk @ post) =
         bind_err (der_loop coefs active basis nd 0 ders blk) (\<lambda>blk'. Inr (pre @ blk' @ post))"
  using assms
proof (induction ders arbitrary: blk)
  case Nil
  then show ?case by simp
next
  case (Cons der ders)
  then have der: "der < length blk" by simp
  have rd: "at (pre @ blk @ post) (ind * nd + der) = Inr (blk ! der)"
    using Cons.prems der by (simp add: at_def nth_append)
  have rd0: "at blk (0 * nd + der) = Inr (blk ! der)"
    using der by (simp add: at_def)
  have upd: "(pre @ blk @ post)[ind * nd + der := v] = pre @ blk[der := v] @ post" for v
    using Cons.prems der by (simp add: list_update_append)
  show ?case
  proof (cases "accumulate coefs basis nd der active 0 (blk ! der)")
    case (Inl e)
    then show ?thesis using rd rd0 by simp
  next
    case (Inr new)
    have "der_loop coefs active basis nd ind ders (pre @ blk[der := new] @ post) =
          bind_err (der_loop coefs active basis nd 0 ders (blk[der := new]))
            (\<lambda>blk'. Inr (pre @ blk' @ post))"
      using Cons.prems by (intro Cons.IH) auto
    then show ?thesis using rd rd0 Inr upd by simp
  qed
qed

lemma block_Inr:
  "block xs start n = Inr blk \<Longrightarrow> length blk = n"
  by (auto simp: block_def split: if_splits)

lemma write_block_Inr:
  assumes "write_block (pre @ old @ post) (length pre) blk = Inr col'" and "length old = length blk"
  shows "col' = pre @ blk @ post"
  using assms by (auto simp: write_block_def split: if_splits)

lemma entry_step_block:
  assumes ok: "cache_ok b ord p s"
    and nd: "nd = numDers ord (dim b)"
    and pre: "length pre = ind * nd"
    and step: "entry_step b ord p ind index (pre @ replicate nd 0 @ post, s) = Inr (col', s')"
  shows "\<exists>blk. entry_block b ord p index = Inr blk \<and> length blk = nd \<and>
           col' = pre @ blk @ post \<and> cache_ok b ord p s' \<and>
           length (processed s') = length (processed s)"
proof -
  let ?col = "pre @ replicate nd 0 @ post"
  from step obtain lvl s1 flag basis active where
    lvl: "getPresLevelOfBasisFun b index = Inr lvl"
    and fill: "fill_level b ord p lvl s = Inr s1"
    and flag: "at (m_is_truncated b) index = Inr flag"
    and basis: "at (tmpResults s1) lvl = Inr basis"
    and active: "at (tmpActive s1) lvl = Inr active"
    and rest: "(if flag = - 1 then
          (let flatTenIndx = flatTensorIndexOf b index lvl;
               localIndex = localIndex_loop active flatTenIndx 0 in
           bind_err (block basis (localIndex * int nd) nd) (\<lambda>blk.
           bind_err (write_block ?col (ind * nd) blk) (\<lambda>col'. Inr (col', s1))))
        else
          bind_err (getCoefs b index) (\<lambda>coefs.
            if ord = 0 then
              bind_err (truncated_value coefs active basis) (\<lambda>tmp.
              bind_err (write_block ?col ind [tmp]) (\<lambda>col'. Inr (col', s1)))
            else
              bind_err (der_loop coefs active basis nd ind [0..<nd] ?col) (\<lambda>col'.
                Inr (col', s1)))) = Inr (col', s')"
    unfolding entry_step_def Let_def fst_conv snd_conv nd by (auto simp: bind_err_Inr_iff)
  from fill_level_cache_ok [OF ok fill] basis active
  have ok1: "cache_ok b ord p s1" and len1: "length (processed s1) = length (processed s)"
    and B: "at (m_bases b) lvl = Inr (m_bases b ! lvl)"
    and basis_eq: "basis = tb_values ord (m_bases b ! lvl) p"
    and active_eq: "active = tb_active_into (m_bases b ! lvl) p"
    by (auto simp: at_def)
  show ?thesis
  proof (cases "flag = - 1")
    case True
    with rest obtain blk where blk: "block basis (localIndex_loop active (flatTensorIndexOf b index lvl) 0 * int nd) nd = Inr blk"
      and wr: "write_block ?col (ind * nd) blk = Inr col'" and s': "s' = s1"
      by (auto simp: bind_err_Inr_iff Let_def)
    have lb: "length blk = nd" using blk by (rule block_Inr)
    have "col' = pre @ blk @ post"
      using wr lb pre by (intro write_block_Inr [where old = "replicate nd 0"]) auto
    moreover have "entry_block b ord p index = Inr blk"
      using lvl B flag True blk basis_eq active_eq by (simp add: entry_block_def nd)
    ultimately show ?thesis using lb ok1 len1 s' by blast
  next
    case False
    with rest obtain coefs where coefs: "getCoefs b index = Inr coefs"
      and rest': "(if ord = 0 then
              bind_err (truncated_value coefs active basis) (\<lambda>tmp.
              bind_err (write_block ?col ind [tmp]) (\<lambda>col'. Inr (col', s1)))
            else
              bind_err (der_loop coefs active basis nd ind [0..<nd] ?col) (\<lambda>col'.
                Inr (col', s1))) = Inr (col', s')"
      by (auto simp: bind_err_Inr_iff)
    show ?thesis
    proof (cases "ord = 0")
      case True
      then have nd1: "nd = 1" by (simp add: nd numDers_def)
      from rest' True obtain tmp where tmp: "truncated_value coefs active basis = Inr tmp"
        and wr: "write_block ?col ind [tmp] = Inr col'" and s': "s' = s1"
        by (auto simp: bind_err_Inr_iff)
      have "col' = pre @ [tmp] @ post"
        using wr pre nd1 by (intro write_block_Inr [where old = "replicate nd 0"]) auto
      moreover have "entry_block b ord p index = Inr [tmp]"
        using lvl B flag False coefs True tmp basis_eq active_eq by (simp add: entry_block_def)
      ultimately show ?thesis using nd1 ok1 len1 s' by auto
    next
      case ord: False
      from rest' ord obtain c1 where dl: "der_loop coefs active basis nd ind [0..<nd] ?col = Inr c1"
        and c1: "c1 = col'" and s': "s' = s1"
        by (auto simp: bind_err_Inr_iff)
      have "der_loop coefs active basis nd ind [0..<nd] ?col =
            bind_err (der_loop coefs active basis nd 0 [0..<nd] (replicate nd 0))
              (\<lambda>blk'. Inr (pre @ blk' @ post))"
        using pre by (intro der_loop_frame) auto
      with dl c1 obtain blk where blk: "der_loop coefs active basis nd 0 [0..<nd] (replicate nd 0) = Inr blk"
        and col': "col' = pre @ blk @ post"
        by (auto simp: bind_err_Inr_iff)
      have lb: "length blk = nd" using der_loop_length [OF blk] by simp
      have "entry_block b ord p index = Inr blk"
        using lvl B flag False coefs ord blk basis_eq active_eq by (simp add: entry_block_def nd)
      then show ?thesis using col' lb ok1 len1 s' by blast
    qed
  qed
qed

lemma ind_loop_collect_tail:
  assumes "cache_ok b ord p s" and nd: "nd = numDers ord (dim b)"
    and "length pre = ind * nd" and "ind \<noteq> 0"
    and "ind_loop b ord p ind idxs (pre @ replicate (length idxs * nd) 0, s) = Inr (col', s')"
  shows "\<exists>vals. collect (entry_block b ord p) (takeWhile (\<lambda>i. i \<noteq> 0) idxs) = Inr vals \<and>
           length vals = length (takeWhile (\<lambda>i. i \<noteq> 0) idxs) * nd \<and>
           col' = pre @ vals @
             replicate ((length idxs - length (takeWhile (\<lambda>i. i \<noteq> 0) idxs)) * nd) 0 \<and>
           cache_ok b ord p s'"
  using assms(1,3,4,5)
proof (induction idxs arbitrary: ind pre s)
  case Nil
  then show ?case by simp
next
  case (Cons index rest)
  show ?case
  proof (cases "index = 0")
    case True
    with Cons.prems show ?thesis by simp
  next
    case False
    have split: "pre @ replicate (length (index # rest) * nd) 0 =
                 pre @ replicate nd 0 @ replicate (length rest * nd) 0"
      by (simp add: replicate_add)
    have "bind_err (entry_step b ord p ind index
               (pre @ replicate nd 0 @ replicate (length rest * nd) 0, s))
            (ind_loop b ord p (Suc ind) rest) = Inr (col', s')"
      using Cons.prems(4) False by (simp add: replicate_add)
    then obtain st where
      st: "entry_step b ord p ind index
               (pre @ replicate nd 0 @ replicate (length rest * nd) 0, s) = Inr st"
      and loop0: "ind_loop b ord p (Suc ind) rest st = Inr (col', s')"
      unfolding bind_err_Inr_iff by blast
    obtain c1 s1 where st_eq: "st = (c1, s1)" by (cases st)
    note step = st [unfolded st_eq] and loop = loop0 [unfolded st_eq]
    from entry_step_block [OF Cons.prems(1) nd Cons.prems(2) step]
    obtain blk where blk: "entry_block b ord p index = Inr blk" and lb: "length blk = nd"
      and c1: "c1 = pre @ blk @ replicate (length rest * nd) 0" and ok1: "cache_ok b ord p s1"
      by blast
    have "\<exists>vals. collect (entry_block b ord p) (takeWhile (\<lambda>i. i \<noteq> 0) rest) = Inr vals \<and>
            length vals = length (takeWhile (\<lambda>i. i \<noteq> 0) rest) * nd \<and>
            col' = (pre @ blk) @ vals @
              replicate ((length rest - length (takeWhile (\<lambda>i. i \<noteq> 0) rest)) * nd) 0 \<and>
            cache_ok b ord p s'"
      using loop c1 lb Cons.prems(2) by (intro Cons.IH [OF ok1]) auto
    then obtain vals where
      v: "collect (entry_block b ord p) (takeWhile (\<lambda>i. i \<noteq> 0) rest) = Inr vals"
      and lv: "length vals = length (takeWhile (\<lambda>i. i \<noteq> 0) rest) * nd"
      and col': "col' = (pre @ blk) @ vals @
              replicate ((length rest - length (takeWhile (\<lambda>i. i \<noteq> 0) rest)) * nd) 0"
      and ok': "cache_ok b ord p s'"
      by blast
    show ?thesis
      using False blk lb v lv col' ok' by (intro exI [of _ "blk @ vals"]) simp
  qed
qed

lemma ind_loop_collect:
  assumes ok: "cache_ok b ord p s" and nd: "nd = numDers ord (dim b)"
    and loop: "ind_loop b ord p 0 idxs (replicate (length idxs * nd) 0, s) = Inr (col', s')"
  shows "\<exists>vals. collect (entry_block b ord p) (processed_prefix idxs) = Inr vals \<and>
           length vals = length (processed_prefix idxs) * nd \<and>
           col' = vals @ replicate ((length idxs - length (processed_prefix idxs)) * nd) 0 \<and>
           cache_ok b ord p s'"
proof (cases idxs)
  case Nil
  with loop ok show ?thesis by (simp add: processed_prefix_def)
next
  case (Cons index rest)
  have split: "replicate (length idxs * nd) 0 =
               [] @ replicate nd (0::'a) @ replicate (length rest * nd) 0"
    by (simp add: Cons replicate_add)
  have "bind_err (entry_step b ord p 0 index
             ([] @ replicate nd 0 @ replicate (length rest * nd) 0, s))
          (ind_loop b ord p (Suc 0) rest) = Inr (col', s')"
    using loop unfolding Cons by (simp add: replicate_add)
  then obtain st where
    st: "entry_step b ord p 0 index
             ([] @ replicate nd 0 @ replicate (length rest * nd) 0, s) = Inr st"
    and loop0: "ind_loop b ord p (Suc 0) rest st = Inr (col', s')"
    unfolding bind_err_Inr_iff by blast
  obtain c1 s1 where st_eq: "st = (c1, s1)" by (cases st)
  note step = st [unfolded st_eq] and loop1 = loop0 [unfolded st_eq]
  from entry_step_block [OF ok nd _ step]
  obtain blk where blk: "entry_block b ord p index = Inr blk" and lb: "length blk = nd"
    and c1: "c1 = blk @ replicate (length rest * nd) 0" and ok1: "cache_ok b ord p s1"
    by auto
  from ind_loop_collect_tail [OF ok1 nd _ _ loop1 [unfolded c1], of ] lb
  obtain vals where
    v: "collect (entry_block b ord p) (takeWhile (\<lambda>i. i \<noteq> 0) rest) = Inr vals"
    and lv: "length vals = length (takeWhile (\<lambda>i. i \<noteq> 0) rest) * nd"
    and col': "col' = blk @ vals @
            replicate ((length rest - length (takeWhile (\<lambda>i. i \<noteq> 0) rest)) * nd) 0"
    and ok': "cache_ok b ord p s'"
    by auto
  show ?thesis
    using Cons blk lb v lv col' ok'
    by (intro exI [of _ "blk @ vals"]) (simp add: processed_prefix_def)
qed

lemma cache_ok_reset:
  assumes "length (tmpResults s) = length (processed s)"
    and "length (tmpActive s) = length (processed s)"
  shows "cache_ok b ord p (s\<lparr>processed := replicate (length (processed s)) 0\<rparr>)"
  using assms by (simp add: cache_ok_def)

lemma pt_loop_columns:
  assumes "length (tmpResults s) = length (processed s)"
    and "length (tmpActive s) = length (processed s)"
    and "\<forall>pc \<in> set pcs. length (snd pc) = n"
    and nd: "nd = numDers ord (dim b)"
    and "pt_loop b ord n pcs s = Inr cols"
  shows "list_all2 (\<lambda>pc col. \<exists>vals.
           collect (entry_block b ord (fst pc)) (processed_prefix (snd pc)) = Inr vals \<and>
           length vals = length (processed_prefix (snd pc)) * nd \<and>
           col = vals @ replicate ((n - length (processed_prefix (snd pc))) * nd) 0) pcs cols"
  using assms(1,2,3,5)
proof (induction pcs arbitrary: s cols)
  case Nil
  then show ?case by simp
next
  case (Cons pc rest)
  let ?s0 = "s\<lparr>processed := replicate (length (processed s)) 0\<rparr>"
  from Cons.prems(4) obtain st cols' where
    st: "ind_loop b ord (fst pc) 0 (snd pc) (replicate (n * nd) 0, ?s0) = Inr st"
    and rest: "pt_loop b ord n rest (snd st) = Inr cols'"
    and cols: "cols = fst st # cols'"
    by (auto simp: bind_err_Inr_iff nd)
  obtain col' s' where st_eq: "st = (col', s')" by (cases st)
  have n: "length (snd pc) = n" using Cons.prems(3) by simp
  have ok0: "cache_ok b ord (fst pc) ?s0"
    using Cons.prems(1,2) by (rule cache_ok_reset)
  from ind_loop_collect [OF ok0 nd, of "snd pc" col' s'] st n
  obtain vals where
    v: "collect (entry_block b ord (fst pc)) (processed_prefix (snd pc)) = Inr vals"
    and lv: "length vals = length (processed_prefix (snd pc)) * nd"
    and col': "col' = vals @ replicate ((n - length (processed_prefix (snd pc))) * nd) 0"
    and ok': "cache_ok b ord (fst pc) s'"
    by (auto simp: st_eq)
  have "list_all2 (\<lambda>pc col. \<exists>vals.
           collect (entry_block b ord (fst pc)) (processed_prefix (snd pc)) = Inr vals \<and>
           length vals = length (processed_prefix (snd pc)) * nd \<and>
           col = vals @ replicate ((n - length (processed_prefix (snd pc))) * nd) 0) rest cols'"
    using ok' rest Cons.prems(3) by (intro Cons.IH [of s']) (auto simp: cache_ok_def st_eq)
  with v lv col' cols st_eq show ?case by auto
qed

lemma columns_active_into:
  "columns (active_into b u) =
     map (\<lambda>p. activeFunctions b p @
            replicate (rows (active_into b u) - length (activeFunctions b p)) 0) u"
  by (simp add: active_into_def Let_def comp_def)

lemma fold_max_ge: "(x::nat) \<in> set xs \<Longrightarrow> x \<le> fold max xs a"
proof (induction xs arbitrary: a)
  case Nil
  then show ?case by simp
next
  case (Cons y ys)
  have mono: "a \<le> fold max ys a" for a :: nat
    by (induction ys arbitrary: a) (auto intro: order_trans [OF max.cobounded2])
  from Cons show ?case
    using mono [of "max y a"] by auto
qed

lemma rows_active_into_ge: "p \<in> set u \<Longrightarrow> length (activeFunctions b p) \<le> rows (active_into b u)"
  by (simp add: active_into_def Let_def fold_max_ge)

lemma length_column_active_into:
  "c \<in> set (columns (active_into b u)) \<Longrightarrow> length c = rows (active_into b u)"
  using rows_active_into_ge [of _ u b] by (auto simp: columns_active_into)

lemma fast_into_columns:
  assumes "fast_into b ord u = Inr M" and nd: "nd = numDers ord (dim b)"
  shows "rows M = rows (active_into b u) * nd \<and>
         list_all2 (\<lambda>pc col. \<exists>vals.
           collect (entry_block b ord (fst pc)) (processed_prefix (snd pc)) = Inr vals \<and>
           length vals = length (processed_prefix (snd pc)) * nd \<and>
           col = vals @
             replicate ((rows (active_into b u) - length (processed_prefix (snd pc))) * nd) 0)
           (zip u (columns (active_into b u))) (columns M)"
proof -
  let ?s = "\<lparr>tmpResults = replicate (getMaxInsLevel b + 1) ([]::'a list),
             tmpActive = replicate (getMaxInsLevel b + 1) [],
             processed = replicate (getMaxInsLevel b + 1) 0\<rparr>"
  from assms(1) obtain cols where
    pl: "pt_loop b ord (rows (active_into b u)) (zip u (columns (active_into b u))) ?s = Inr cols"
    and M: "M = Matrix (rows (active_into b u) * nd) cols"
    by (auto simp: fast_into_def Let_def bind_err_Inr_iff nd)
  have len: "\<forall>pc \<in> set (zip u (columns (active_into b u))). length (snd pc) = rows (active_into b u)"
    by (auto dest!: set_zip_rightD intro: length_column_active_into)
  from pt_loop_columns [OF _ _ len nd pl] M show ?thesis by simp
qed

lemma fast_into_column:
  assumes fast: "fast_into b ord u = Inr M" and nd: "nd = numDers ord (dim b)"
    and pt: "pt < length u"
  shows "\<exists>vals.
           collect (entry_block b ord (u ! pt))
             (processed_prefix (columns (active_into b u) ! pt)) = Inr vals \<and>
           length vals = length (processed_prefix (columns (active_into b u) ! pt)) * nd \<and>
           columns M ! pt = vals @
             replicate ((rows (active_into b u) -
               length (processed_prefix (columns (active_into b u) ! pt))) * nd) 0"
proof -
  have lc: "length (columns (active_into b u)) = length u"
    by (simp add: columns_active_into)
  from fast_into_columns [OF fast nd]
  have all: "list_all2 (\<lambda>pc col. \<exists>vals.
           collect (entry_block b ord (fst pc)) (processed_prefix (snd pc)) = Inr vals \<and>
           length vals = length (processed_prefix (snd pc)) * nd \<and>
           col = vals @
             replicate ((rows (active_into b u) - length (processed_prefix (snd pc))) * nd) 0)
           (zip u (columns (active_into b u))) (columns M)"
    by simp
  have "pt < length (zip u (columns (active_into b u)))" using pt lc by simp
  from list_all2_nthD [OF all this] pt lc show ?thesis by simp
qed

lemma length_processed_prefix_le: "length (processed_prefix c) \<le> length c"
  by (cases c) (auto simp: processed_prefix_def intro: le_trans [OF length_takeWhile_le])

lemma entry_block_length:
  "entry_block b ord p index = Inr blk \<Longrightarrow> length blk = numDers ord (dim b)"
  by (auto simp: entry_block_def Let_def bind_err_Inr_iff numDers_def
      split: if_splits dest: block_Inr der_loop_length)

lemma collect_nth:
  assumes "collect f idxs = Inr vals" and "\<And>i blk. f i = Inr blk \<Longrightarrow> length blk = nd"
    and "ind < length idxs"
  shows "f (idxs ! ind) = Inr (take nd (drop (ind * nd) vals))"
  using assms(1,3)
proof (induction idxs arbitrary: ind vals)
  case Nil
  then show ?case by simp
next
  case (Cons i "is")
  from Cons.prems(1) obtain blk r where blk: "f i = Inr blk" and r: "collect f is = Inr r"
    and vals: "vals = blk @ r"
    by (auto simp: bind_err_Inr_iff)
  have lb: "length blk = nd" using blk by (rule assms(2))
  show ?case
  proof (cases ind)
    case 0
    with blk vals lb show ?thesis by simp
  next
    case (Suc k)
    with Cons.prems(2) have "k < length is" by simp
    from Cons.IH [OF r this] Suc vals lb show ?thesis by simp
  qed
qed

lemma accumulate_foldl:
  assumes "accumulate coefs basis nd der as i tmp = Inr r"
  shows "r = foldl (+) tmp (map (\<lambda>k. coeff coefs (as ! k) * basis ! ((i + k) * nd + der))
                      [0..<length as])"
  using assms
proof (induction as arbitrary: i tmp)
  case Nil
  then show ?case by simp
next
  case (Cons a as)
  from Cons.prems have v: "i * nd + der < length basis"
    and rec: "accumulate coefs basis nd der as (Suc i)
                (tmp + coeff coefs a * basis ! (i * nd + der)) = Inr r"
    by (auto simp: bind_err_Inr_iff at_Inr_iff)
  from Cons.IH [OF rec] show ?case
    by (simp add: map_upt_Suc del: upt_Suc)
qed

lemma truncated_value_sum:
  assumes "truncated_value coefs active basis = Inr tmp"
  shows "tmp = sum_from_first (products coefs active basis 1 0)"
proof -
  from assms obtain a0 rest where act: "active = a0 # rest"
    by (cases active) (auto simp: truncated_value_def at_def)
  from assms act have
    "accumulate coefs basis 1 0 rest 1 (coeff coefs a0 * basis ! 0) = Inr tmp"
    by (auto simp: truncated_value_def bind_err_Inr_iff at_Inr_iff)
  from accumulate_foldl [OF this] act show ?thesis
    by (simp add: products_def sum_from_first_def map_upt_Suc del: upt_Suc)
qed

lemma der_loop_sum:
  assumes "der_loop coefs active basis nd 0 ders col = Inr col'" and "distinct ders"
    and "j < length col"
  shows "col' ! j =
           (if j \<in> set ders then foldl (+) (col ! j) (products coefs active basis nd j)
            else col ! j)"
  using assms
proof (induction ders arbitrary: col)
  case Nil
  then show ?case by simp
next
  case (Cons der ders)
  from Cons.prems(1) obtain new where der: "der < length col"
    and new: "accumulate coefs basis nd der active 0 (col ! der) = Inr new"
    and rec: "der_loop coefs active basis nd 0 ders (col[der := new]) = Inr col'"
    by (auto simp: bind_err_Inr_iff at_Inr_iff)
  have new_eq: "new = foldl (+) (col ! der) (products coefs active basis nd der)"
    using accumulate_foldl [OF new] by (simp add: products_def)
  from Cons.IH [OF rec] Cons.prems(2,3)
  have "col' ! j =
          (if j \<in> set ders
           then foldl (+) (col[der := new] ! j) (products coefs active basis nd j)
           else col[der := new] ! j)"
    by simp
  with Cons.prems(2,3) new_eq der show ?case
    by (auto simp: nth_list_update)
qed

lemma der_loop_zero_sum:
  assumes "der_loop coefs active basis nd 0 [0..<nd] (replicate nd 0) = Inr blk"
  shows "blk = map (\<lambda>der. sum_onto_zero (products coefs active basis nd der)) [0..<nd]"
proof (rule nth_equalityI)
  show "length blk =
          length (map (\<lambda>der. sum_onto_zero (products coefs active basis nd der)) [0..<nd])"
    using der_loop_length [OF assms] by simp
next
  fix j assume "j < length blk"
  then have j: "j < nd" using der_loop_length [OF assms] by simp
  with der_loop_sum [OF assms, of j]
  show "blk ! j = map (\<lambda>der. sum_onto_zero (products coefs active basis nd der)) [0..<nd] ! j"
    by (simp add: sum_onto_zero_def)
qed

lemma entry_block_truncated:
  assumes "entry_block b ord p index = Inr blk" and "isTruncated b index = Inr True"
  shows "\<exists>coefs lvl B. getCoefs b index = Inr coefs \<and>
           getPresLevelOfBasisFun b index = Inr lvl \<and> at (m_bases b) lvl = Inr B \<and>
           blk = map (linear_combination ord coefs (tb_active_into B p) (tb_values ord B p)
                        (numDers ord (dim b)))
                   [0..<numDers ord (dim b)]"
proof -
  from assms(2) have flag: "index < length (m_is_truncated b)" "m_is_truncated b ! index \<noteq> - 1"
    by (auto simp: isTruncated_def bind_err_Inr_iff at_Inr_iff)
  with assms(1) obtain lvl B coefs where
    lvl: "getPresLevelOfBasisFun b index = Inr lvl" and B: "at (m_bases b) lvl = Inr B"
    and coefs: "getCoefs b index = Inr coefs"
    and rest: "(if ord = 0 then
              bind_err (truncated_value coefs (tb_active_into B p) (tb_values ord B p))
                (\<lambda>tmp. Inr [tmp])
            else
              der_loop coefs (tb_active_into B p) (tb_values ord B p) (numDers ord (dim b)) 0
                [0..<numDers ord (dim b)] (replicate (numDers ord (dim b)) 0)) = Inr blk"
    by (auto simp: entry_block_def Let_def bind_err_Inr_iff at_Inr_iff)
  have "blk = map (linear_combination ord coefs (tb_active_into B p) (tb_values ord B p)
                     (numDers ord (dim b)))
                   [0..<numDers ord (dim b)]"
  proof (cases "ord = 0")
    case True
    with rest obtain tmp where
      "truncated_value coefs (tb_active_into B p) (tb_values ord B p) = Inr tmp" "blk = [tmp]"
      by (auto simp: bind_err_Inr_iff)
    with truncated_value_sum [OF this(1)] True show ?thesis
      by (simp add: numDers_def linear_combination_def)
  next
    case False
    with rest have "blk = map (\<lambda>der. sum_onto_zero (products coefs (tb_active_into B p)
        (tb_values ord B p) (numDers ord (dim b)) der)) [0..<numDers ord (dim b)]"
      by (auto dest: der_loop_zero_sum)
    with False show ?thesis by (simp add: linear_combination_def)
  qed
  with lvl B coefs show ?thesis by blast
qed

section \<open>The evaluators on the example\<close>

lemma ex_fastEval: "fast_into ex_basis 0 [0, 1] = Inr (Matrix 3 [[1, 0, 0], [43, 2, 3]])"
  by code_simp

lemma ex_fastDeriv: "fast_into ex_basis 1 [0, 1] = Inr (Matrix 3 [[10, 0, 0], [430, 20, 30]])"
  by code_simp

lemma ex_fastDeriv2:
  "fast_into ex_basis 2 [0, 1] = Inr (Matrix 3 [[100, 0, 0], [4300, 200, 300]])"
  by code_simp

lemma ex_active_into: "active_into ex_basis [0, 1] = Matrix 3 [[0, 1, 0], [1, 2, 4]]"
  by code_simp

section \<open>Zero padding of the result columns\<close>

text \<open>
  C10. In each column \<open>pt\<close> of the result of a fast evaluator (\<open>fast_into\<close> at order \<open>0\<close>,
  \<open>1\<close> or \<open>2\<close> is \<open>fastEval_into\<close>, \<open>fastDeriv_into\<close>, \<open>fastDeriv2_into\<close>), values are
  computed for the prefix of the column of \<open>indices\<close> that ends before the first entry \<open>0\<close>
  at a row other than row \<open>0\<close>: the first \<open>k * nd\<close> rows are the blocks of these \<open>k\<close>
  functions. Every entry of the column beyond them is the zero of the initialisation.
\<close>

theorem fast_into_prefix_then_zero:
  assumes "fast_into b ord u = Inr M" and "pt < length u"
  shows "let column = columns (active_into b u) ! pt;
             k = length (processed_prefix column);
             nd = numDers ord (dim b)
         in length (columns M ! pt) = rows M \<and>
            collect (entry_block b ord (u ! pt)) (processed_prefix column) =
              Inr (take (k * nd) (columns M ! pt)) \<and>
            (\<forall>row. k * nd \<le> row \<and> row < rows M \<longrightarrow> columns M ! pt ! row = 0)"
proof -
  define column where "column = columns (active_into b u) ! pt"
  define k where "k = length (processed_prefix column)"
  define nd where "nd = numDers ord (dim b)"
  from fast_into_column [OF assms(1) nd_def assms(2)]
  obtain vals where v: "collect (entry_block b ord (u ! pt)) (processed_prefix column) = Inr vals"
    and lv: "length vals = k * nd"
    and col: "columns M ! pt = vals @ replicate ((rows (active_into b u) - k) * nd) 0"
    unfolding column_def k_def by blast
  have rM: "rows M = rows (active_into b u) * nd"
    using fast_into_columns [OF assms(1) nd_def] by simp
  have "column \<in> set (columns (active_into b u))"
    using assms(2) by (simp add: column_def columns_active_into)
  then have "length column = rows (active_into b u)" by (rule length_column_active_into)
  then have kn: "k \<le> rows (active_into b u)"
    using length_processed_prefix_le [of column] by (simp add: k_def)
  have len: "length (columns M ! pt) = rows M"
    using col lv rM kn by (simp add: algebra_simps flip: add_mult_distrib)
  have zero: "columns M ! pt ! row = 0" if "k * nd \<le> row" "row < rows M" for row
    using that col lv rM len by (simp add: nth_append)
  show ?thesis
    unfolding Let_def column_def [symmetric] k_def [symmetric] nd_def [symmetric]
    using len v lv col zero by simp
qed

theorem fast_into_prefix_then_zero_witness:
  "fastEval_into ex_basis [0, 1] = Inr (Matrix 3 [[1, 0, 0], [43, 2, 3]]) \<and>
   (0::nat) < length [0::nat, 1] \<and>
   processed_prefix (columns (active_into ex_basis [0, 1]) ! 0) = [0, 1] \<and>
   collect (entry_block ex_basis 0 0) [0, 1] = Inr [1, 0] \<and>
   columns (Matrix 3 [[1, 0, 0], [43, 2, 3::int]]) ! 0 ! 2 = 0"
proof -
  have prefix: "processed_prefix (columns (active_into ex_basis [0, 1]) ! 0) = [0, 1]"
    by code_simp
  have nd: "numDers 0 (dim ex_basis) = 1"
    by code_simp
  from fast_into_prefix_then_zero [OF ex_fastEval, of 0]
  have "collect (entry_block ex_basis 0 0) [0, 1] = Inr [1, 0] \<and>
        columns (Matrix 3 [[1, 0, 0], [43, 2, 3::int]]) ! 0 ! 2 = 0"
    unfolding Let_def prefix nd by simp
  with prefix ex_fastEval show ?thesis
    by (simp add: fastEval_into_def del: One_nat_def)
qed

section \<open>Truncated functions are evaluated as dot products\<close>

text \<open>
  Where addition is associative and \<open>0\<close> is neutral, both orders give the sum of the
  products.
\<close>

lemma foldl_plus_sum_list:
  fixes a :: "'a::monoid_add"
  shows "foldl (+) a ps = a + sum_list ps"
  by (induction ps arbitrary: a) (simp_all add: add.assoc)

lemma sums_are_sum_list:
  fixes ps :: "'a::monoid_add list"
  shows "sum_from_first ps = sum_list ps" and "sum_onto_zero ps = sum_list ps"
  by (cases ps; simp add: sum_from_first_def sum_onto_zero_def foldl_plus_sum_list)+

lemma fast_into_truncated_sum:
  assumes fast: "fast_into b ord u = Inr M" and pt: "pt < length u"
    and ind: "ind < length (processed_prefix (columns (active_into b u) ! pt))"
    and trunc: "isTruncated b (columns (active_into b u) ! pt ! ind) = Inr True"
  shows "\<exists>coefs lvl B.
           getCoefs b (columns (active_into b u) ! pt ! ind) = Inr coefs \<and>
           getPresLevelOfBasisFun b (columns (active_into b u) ! pt ! ind) = Inr lvl \<and>
           at (m_bases b) lvl = Inr B \<and>
           (\<forall>k < numDers ord (dim b).
              columns M ! pt ! (ind * numDers ord (dim b) + k) =
                linear_combination ord coefs (tb_active_into B (u ! pt))
                  (tb_values ord B (u ! pt)) (numDers ord (dim b)) k)"
proof -
  define nd where "nd = numDers ord (dim b)"
  define column where "column = columns (active_into b u) ! pt"
  from fast_into_column [OF fast nd_def pt]
  obtain vals where v: "collect (entry_block b ord (u ! pt)) (processed_prefix column) = Inr vals"
    and lv: "length vals = length (processed_prefix column) * nd"
    and col: "columns M ! pt = vals @
      replicate ((rows (active_into b u) - length (processed_prefix column)) * nd) 0"
    unfolding column_def by blast
  have pp: "processed_prefix column ! ind = column ! ind"
    using ind unfolding column_def [symmetric]
    by (cases column; cases ind) (auto simp: processed_prefix_def takeWhile_nth)
  have blk: "entry_block b ord (u ! pt) (column ! ind) = Inr (take nd (drop (ind * nd) vals))"
    using collect_nth [OF v _ ind [folded column_def], of nd] entry_block_length [of b ord "u ! pt"]
    by (simp add: pp nd_def)
  from entry_block_truncated [OF blk trunc [folded column_def]]
  obtain coefs lvl B where c: "getCoefs b (column ! ind) = Inr coefs"
    and l: "getPresLevelOfBasisFun b (column ! ind) = Inr lvl"
    and B: "at (m_bases b) lvl = Inr B"
    and eq: "take nd (drop (ind * nd) vals) =
       map (linear_combination ord coefs (tb_active_into B (u ! pt)) (tb_values ord B (u ! pt)) nd)
         [0..<nd]"
    unfolding nd_def by blast
  have fits: "ind * nd + nd \<le> length vals"
  proof -
    have "Suc ind * nd \<le> length (processed_prefix column) * nd"
      using ind [folded column_def] by (intro mult_le_mono1) simp
    then show ?thesis using lv by simp
  qed
  have "columns M ! pt ! (ind * nd + k) =
          linear_combination ord coefs (tb_active_into B (u ! pt)) (tb_values ord B (u ! pt)) nd k"
    if k: "k < nd" for k
  proof -
    from k fits have in_vals: "ind * nd + k < length vals" by simp
    have "columns M ! pt ! (ind * nd + k) = vals ! (ind * nd + k)"
      using col in_vals by (simp add: nth_append)
    also have "\<dots> = take nd (drop (ind * nd) vals) ! k"
      using k in_vals by simp
    also have "\<dots> = linear_combination ord coefs (tb_active_into B (u ! pt))
                       (tb_values ord B (u ! pt)) nd k"
      using k unfolding eq by simp
    finally show ?thesis .
  qed
  then show ?thesis
    using c l B unfolding column_def nd_def by blast
qed

text \<open>
  C2. For a truncated function \<open>index\<close> in a row \<open>ind\<close> that the loop reaches at a point
  \<open>u ! pt\<close>: the value \<open>fastEval_into\<close> writes is the dot product of \<open>getCoefs index\<close> with
  the values of the tensor basis of the presentation level at that point, and the \<open>d\<close>
  first derivatives \<open>fastDeriv_into\<close> writes are the same linear combination of the
  derivatives of that tensor basis. The dot product is the sum of the products
  \<open>coefs(active(i)) * basis(i)\<close> in the order of the rows \<open>i\<close>, added as the source adds
  them: from the first product on for the value, onto the zero of the result for a
  derivative. No law of the arithmetic of the scalars is used, so the statement holds of
  a floating-point \<open>T\<close> with its rounding.
\<close>

theorem truncated_rows_are_dot_products:
  fixes b :: "('a::{zero,plus,times}, 'p) gsTHBSplineBasis"
  assumes "pt < length u"
    and "ind < length (processed_prefix (columns (active_into b u) ! pt))"
    and "index = columns (active_into b u) ! pt ! ind"
    and "isTruncated b index = Inr True"
  shows "(fastEval_into b u = Inr M \<longrightarrow>
            (\<exists>coefs lvl B. getCoefs b index = Inr coefs \<and>
               getPresLevelOfBasisFun b index = Inr lvl \<and> at (m_bases b) lvl = Inr B \<and>
               columns M ! pt ! ind =
                 sum_from_first
                   (products coefs (tb_active_into B (u ! pt)) (tb_eval_into B (u ! pt)) 1 0))) \<and>
         (fastDeriv_into b u = Inr M' \<longrightarrow>
            (\<exists>coefs lvl B. getCoefs b index = Inr coefs \<and>
               getPresLevelOfBasisFun b index = Inr lvl \<and> at (m_bases b) lvl = Inr B \<and>
               (\<forall>k < dim b. columns M' ! pt ! (ind * dim b + k) =
                  sum_onto_zero
                    (products coefs (tb_active_into B (u ! pt)) (tb_deriv_into B (u ! pt))
                       (dim b) k))))"
proof (intro conjI impI)
  assume "fastEval_into b u = Inr M"
  then have "fast_into b 0 u = Inr M" by (simp add: fastEval_into_def)
  from fast_into_truncated_sum [OF this assms(1,2) assms(4) [unfolded assms(3)]]
  show "\<exists>coefs lvl B. getCoefs b index = Inr coefs \<and>
               getPresLevelOfBasisFun b index = Inr lvl \<and> at (m_bases b) lvl = Inr B \<and>
               columns M ! pt ! ind =
                 sum_from_first
                   (products coefs (tb_active_into B (u ! pt)) (tb_eval_into B (u ! pt)) 1 0)"
    by (simp add: numDers_def tb_values_def linear_combination_def assms(3))
next
  assume "fastDeriv_into b u = Inr M'"
  then have "fast_into b 1 u = Inr M'" by (simp add: fastDeriv_into_def)
  from fast_into_truncated_sum [OF this assms(1,2) assms(4) [unfolded assms(3)]]
  show "\<exists>coefs lvl B. getCoefs b index = Inr coefs \<and>
               getPresLevelOfBasisFun b index = Inr lvl \<and> at (m_bases b) lvl = Inr B \<and>
               (\<forall>k < dim b. columns M' ! pt ! (ind * dim b + k) =
                  sum_onto_zero
                    (products coefs (tb_active_into B (u ! pt)) (tb_deriv_into B (u ! pt))
                       (dim b) k))"
    by (simp add: numDers_def tb_values_def linear_combination_def assms(3))
qed

theorem truncated_rows_are_dot_products_witness:
  "(1::nat) < length [0::nat, 1] \<and>
   (0::nat) < length (processed_prefix (columns (active_into ex_basis [0, 1]) ! 1)) \<and>
   columns (active_into ex_basis [0, 1]) ! 1 ! 0 = 1 \<and>
   isTruncated ex_basis 1 = Inr True \<and>
   fastEval_into ex_basis [0, 1] = Inr (Matrix 3 [[1, 0, 0], [43, 2, 3]]) \<and>
   fastDeriv_into ex_basis [0, 1] = Inr (Matrix 3 [[10, 0, 0], [430, 20, 30]]) \<and>
   getCoefs ex_basis 1 = Inr [(2, 5), (3, 7)] \<and>
   getPresLevelOfBasisFun ex_basis 1 = Inr 1 \<and>
   at (m_bases ex_basis) 1 = Inr ex_level1 \<and>
   sum_from_first
     (products [(2, 5), (3, 7)] (tb_active_into ex_level1 1) (tb_eval_into ex_level1 1) 1 0) = 43 \<and>
   sum_onto_zero
     (products [(2, 5), (3, 7)] (tb_active_into ex_level1 1) (tb_deriv_into ex_level1 1) 1 0) = 430"
proof -
  have h: "(1::nat) < length [0::nat, 1]"
    "(0::nat) < length (processed_prefix (columns (active_into ex_basis [0, 1]) ! 1))"
    "(1::nat) = columns (active_into ex_basis [0, 1]) ! 1 ! 0"
    "isTruncated ex_basis 1 = Inr True"
    by code_simp+
  have ev: "fastEval_into ex_basis [0, 1] = Inr (Matrix 3 [[1, 0, 0], [43, 2, 3]])"
    "fastDeriv_into ex_basis [0, 1] = Inr (Matrix 3 [[10, 0, 0], [430, 20, 30]])"
    by (simp_all only: fastEval_into_def fastDeriv_into_def ex_fastEval ex_fastDeriv)
  have acc: "getCoefs ex_basis 1 = Inr [(2, 5), (3, 7)]"
    "getPresLevelOfBasisFun ex_basis 1 = Inr 1"
    "at (m_bases ex_basis) 1 = Inr ex_level1"
    by (simp_all add: getCoefs_def getPresLevelOfBasisFun_def at_def ex_basis_def)
  from truncated_rows_are_dot_products [OF h, of "Matrix 3 [[1, 0, 0], [43, 2, 3]]"
      "Matrix 3 [[10, 0, 0], [430, 20, 30]]"] ev acc
  have "sum_from_first
          (products [(2, 5), (3, 7)] (tb_active_into ex_level1 1) (tb_eval_into ex_level1 1) 1 0)
          = 43 \<and>
        sum_onto_zero
          (products [(2, 5), (3, 7)] (tb_active_into ex_level1 1) (tb_deriv_into ex_level1 1) 1 0)
          = 430"
    by (simp add: ex_basis_def)
  with h ev acc show ?thesis by simp
qed

section \<open>The evaluators return on inputs read in range\<close>

text \<open>
  The statements on what a fast evaluator returns are about every call that returns. It
  does return on every point set that it reads in range (\<open>evaluable\<close>): the loops of the
  model end in \<open>Inr\<close>.
\<close>

lemma localIndex_loop_eq:
  "localIndex_loop active flat row =
     (if flat \<in> set active then int (row + length (takeWhile (\<lambda>a. a \<noteq> flat) active)) else - 1)"
  by (induction active arbitrary: row) auto

lemma takeWhile_nonzero_padded:
  "0 \<notin> set rest \<Longrightarrow> takeWhile (\<lambda>i. i \<noteq> (0::nat)) (rest @ replicate n 0) = rest"
proof (induction rest)
  case Nil
  show ?case by (cases n) auto
next
  case (Cons i rest)
  then show ?case by auto
qed

lemma processed_prefix_padded:
  assumes "c \<noteq> []" and "0 \<notin> set (tl c)"
  shows "processed_prefix (c @ replicate n 0) = c"
proof -
  from assms(1) obtain i rest where c: "c = i # rest" by (cases c) auto
  with assms(2) takeWhile_nonzero_padded [of rest n] show ?thesis
    by (simp add: processed_prefix_def)
qed

lemma accumulate_total:
  assumes "(i + length as) * nd \<le> length basis" and "der < nd"
  shows "\<exists>r. accumulate coefs basis nd der as i tmp = Inr r"
  using assms(1)
proof (induction as arbitrary: i tmp)
  case Nil
  show ?case by simp
next
  case (Cons a as)
  have "i * nd + der < Suc i * nd" using assms(2) by simp
  also have "\<dots> \<le> (i + length (a # as)) * nd" by (intro mult_le_mono1) simp
  finally have rd: "i * nd + der < length basis" using Cons.prems by simp
  have "(Suc i + length as) * nd \<le> length basis" using Cons.prems by simp
  from Cons.IH [OF this] rd show ?case by (simp add: at_def)
qed

lemma truncated_value_total:
  assumes "active \<noteq> []" and "length active \<le> length basis"
  shows "\<exists>tmp. truncated_value coefs active basis = Inr tmp"
proof -
  from assms obtain a0 rest where act: "active = a0 # rest" by (cases active) auto
  with assms(2) have "(1 + length rest) * 1 \<le> length basis" and "0 < length basis"
    by auto
  from accumulate_total [OF this(1), of 0 coefs] act this(2) show ?thesis
    by (simp add: truncated_value_def at_def)
qed

lemma der_loop_total:
  assumes "\<forall>der \<in> set ders. der < length col \<and> der < nd"
    and "length active * nd \<le> length basis"
  shows "\<exists>col'. der_loop coefs active basis nd 0 ders col = Inr col'"
  using assms(1)
proof (induction ders arbitrary: col)
  case Nil
  show ?case by simp
next
  case (Cons der ders)
  then have der: "der < length col" "der < nd" by simp_all
  from accumulate_total [of 0 active nd basis der coefs "col ! der"] assms(2) der(2)
  obtain new where new: "accumulate coefs basis nd der active 0 (col ! der) = Inr new"
    by auto
  have "\<exists>col'. der_loop coefs active basis nd 0 ders (col[der := new]) = Inr col'"
    using Cons.prems by (intro Cons.IH) simp
  with der new show ?case by (simp add: at_def)
qed

lemma block_total:
  assumes "flat \<in> set active" and "length vals = length active * nd"
  shows "\<exists>blk. block vals (localIndex_loop active flat 0 * int nd) nd = Inr blk"
proof -
  let ?pos = "length (takeWhile (\<lambda>a. a \<noteq> flat) active)"
  from assms(1) have pos: "?pos < length active"
    by (induction active) auto
  then have "Suc ?pos * nd \<le> length active * nd" by (intro mult_le_mono1) simp
  then have "?pos * nd + nd \<le> length vals" using assms(2) by simp
  moreover have "localIndex_loop active flat 0 = int ?pos"
    using assms(1) by (simp add: localIndex_loop_eq)
  ultimately show ?thesis by (simp add: block_def flip: of_nat_mult)
qed

lemma entry_in_range_block:
  assumes "entry_in_range b ord p index"
  shows "\<exists>lvl blk. getPresLevelOfBasisFun b index = Inr lvl \<and> lvl \<le> getMaxInsLevel b \<and>
           entry_block b ord p index = Inr blk"
proof -
  define flag where "flag = m_is_truncated b ! index"
  define lvl where "lvl = (if flag = - 1 then levelOf b index else nat (flag mod 2 ^ 32))"
  define B where "B = m_bases b ! lvl"
  define nd where "nd = numDers ord (dim b)"
  from assms have idx: "index < length (m_is_truncated b)"
    and lvl: "lvl \<le> getMaxInsLevel b" "lvl < length (m_bases b)"
    and len: "length (tb_values ord B p) = length (tb_active_into B p) * nd"
    and ne: "tb_active_into B p \<noteq> []"
    and nat: "flag = - 1 \<Longrightarrow> flatTensorIndexOf b index lvl \<in> set (tb_active_into B p)"
    and tr: "flag \<noteq> - 1 \<Longrightarrow> map_of (m_presentation b) index \<noteq> None"
    unfolding entry_in_range_def Let_def flag_def lvl_def B_def nd_def by (simp_all split: if_splits)
  have gp: "getPresLevelOfBasisFun b index = Inr lvl"
    using idx by (simp add: getPresLevelOfBasisFun_def at_def lvl_def flag_def)
  have atB: "at (m_bases b) lvl = Inr B" using lvl(2) by (simp add: at_def B_def)
  have atf: "at (m_is_truncated b) index = Inr flag" using idx by (simp add: at_def flag_def)
  have "\<exists>blk. entry_block b ord p index = Inr blk"
  proof (cases "flag = - 1")
    case True
    from block_total [OF nat [OF True] len] gp atB atf True show ?thesis
      by (simp add: entry_block_def nd_def Let_def)
  next
    case False
    from tr [OF False] obtain coefs where "map_of (m_presentation b) index = Some coefs"
      by auto
    with False idx have gc: "getCoefs b index = Inr coefs"
      by (simp add: getCoefs_def at_def flag_def)
    show ?thesis
    proof (cases "ord = 0")
      case True
      then have "nd = 1" by (simp add: nd_def numDers_def)
      with len have "length (tb_active_into B p) \<le> length (tb_values ord B p)" by simp
      from truncated_value_total [OF ne this, of coefs] gp atB atf False gc True
      show ?thesis by (auto simp: entry_block_def Let_def)
    next
      case ord: False
      from der_loop_total [of "[0..<nd]" "replicate nd 0" nd "tb_active_into B p"
          "tb_values ord B p" coefs] len
      obtain blk where "der_loop coefs (tb_active_into B p) (tb_values ord B p) nd 0 [0..<nd]
          (replicate nd 0) = Inr blk"
        by auto
      with gp atB atf False gc ord show ?thesis
        by (simp add: entry_block_def nd_def Let_def)
    qed
  qed
  with gp lvl(1) show ?thesis by blast
qed

lemma entry_step_total:
  assumes ok: "cache_ok b ord p s" and nd: "nd = numDers ord (dim b)"
    and pre: "length pre = ind * nd"
    and lvl: "getPresLevelOfBasisFun b index = Inr lvl" "lvl < length (processed s)"
    and blk: "entry_block b ord p index = Inr blk"
  shows "\<exists>s'. entry_step b ord p ind index (pre @ replicate nd 0 @ post, s) =
           Inr (pre @ blk @ post, s')"
proof -
  let ?col = "pre @ replicate nd 0 @ post"
  from blk lvl(1) obtain B flag where B: "at (m_bases b) lvl = Inr B"
    and flag: "at (m_is_truncated b) index = Inr flag"
    and rest: "(if flag = - 1 then
          block (tb_values ord B p)
            (localIndex_loop (tb_active_into B p) (flatTensorIndexOf b index lvl) 0 * int nd) nd
        else
          bind_err (getCoefs b index) (\<lambda>coefs.
            if ord = 0 then
              bind_err (truncated_value coefs (tb_active_into B p) (tb_values ord B p))
                (\<lambda>tmp. Inr [tmp])
            else
              der_loop coefs (tb_active_into B p) (tb_values ord B p) nd 0 [0..<nd]
                (replicate nd 0))) = Inr blk"
    unfolding entry_block_def Let_def nd by (auto simp: bind_err_Inr_iff)
  from B have Beq: "B = m_bases b ! lvl" and Blt: "lvl < length (m_bases b)"
    by (auto simp: at_Inr_iff)
  obtain s1 where fill: "fill_level b ord p lvl s = Inr s1"
    using lvl(2) B by (cases "processed s ! lvl = 0") (auto simp: fill_level_def at_def)
  from fill_level_cache_ok [OF ok fill]
  have basis: "at (tmpResults s1) lvl = Inr (tb_values ord B p)"
    and active: "at (tmpActive s1) lvl = Inr (tb_active_into B p)"
    by (simp_all add: Beq)
  have lb: "length blk = nd" using entry_block_length [OF blk] nd by simp
  have wr: "write_block ?col (ind * nd) blk = Inr (pre @ blk @ post)"
    using pre lb by (simp add: write_block_def)
  have "entry_step b ord p ind index (?col, s) = Inr (pre @ blk @ post, s1)"
  proof (cases "flag = - 1")
    case True
    with rest lvl(1) fill flag basis active wr show ?thesis
      unfolding entry_step_def Let_def fst_conv snd_conv nd [symmetric] by simp
  next
    case False
    with rest obtain coefs where coefs: "getCoefs b index = Inr coefs"
      and rest': "(if ord = 0 then
              bind_err (truncated_value coefs (tb_active_into B p) (tb_values ord B p))
                (\<lambda>tmp. Inr [tmp])
            else
              der_loop coefs (tb_active_into B p) (tb_values ord B p) nd 0 [0..<nd]
                (replicate nd 0)) = Inr blk"
      by (auto simp: bind_err_Inr_iff)
    show ?thesis
    proof (cases "ord = 0")
      case True
      then have nd1: "nd = 1" by (simp add: nd numDers_def)
      from rest' True obtain tmp where
        tmp: "truncated_value coefs (tb_active_into B p) (tb_values ord B p) = Inr tmp"
        and b1: "blk = [tmp]"
        by (auto simp: bind_err_Inr_iff)
      from wr nd1 b1 have "write_block ?col ind [tmp] = Inr (pre @ blk @ post)" by simp
      with False True lvl(1) fill flag basis active coefs tmp show ?thesis
        unfolding entry_step_def Let_def fst_conv snd_conv nd [symmetric] by simp
    next
      case ord: False
      with rest' have dl: "der_loop coefs (tb_active_into B p) (tb_values ord B p) nd 0 [0..<nd]
                (replicate nd 0) = Inr blk"
        by simp
      have "der_loop coefs (tb_active_into B p) (tb_values ord B p) nd ind [0..<nd] ?col =
            bind_err (der_loop coefs (tb_active_into B p) (tb_values ord B p) nd 0 [0..<nd]
              (replicate nd 0)) (\<lambda>blk'. Inr (pre @ blk' @ post))"
        using pre by (intro der_loop_frame) auto
      with dl have "der_loop coefs (tb_active_into B p) (tb_values ord B p) nd ind [0..<nd] ?col =
          Inr (pre @ blk @ post)"
        by simp
      with False ord lvl(1) fill flag basis active coefs show ?thesis
        unfolding entry_step_def Let_def fst_conv snd_conv nd [symmetric] by simp
    qed
  qed
  then show ?thesis by blast
qed

lemma fill_level_length:
  "fill_level b ord p lvl s = Inr s' \<Longrightarrow> length (processed s') = length (processed s)"
  by (auto simp: fill_level_def bind_err_Inr_iff split: if_splits)

lemma entry_step_length:
  assumes "entry_step b ord p ind index st = Inr st'"
  shows "length (processed (snd st')) = length (processed (snd st))"
proof -
  from assms obtain lvl s1 where fill: "fill_level b ord p lvl (snd st) = Inr s1"
    and "snd st' = s1"
    unfolding entry_step_def Let_def
    by (auto simp: bind_err_Inr_iff split: if_splits)
  with fill_level_length [OF fill] show ?thesis by simp
qed

lemma ind_loop_total_tail:
  assumes "cache_ok b ord p s" and nd: "nd = numDers ord (dim b)"
    and "length pre = ind * nd" and "ind \<noteq> 0"
    and "\<forall>index \<in> set (takeWhile (\<lambda>i. i \<noteq> 0) idxs). \<exists>lvl blk.
           getPresLevelOfBasisFun b index = Inr lvl \<and> lvl < length (processed s) \<and>
           entry_block b ord p index = Inr blk"
  shows "\<exists>r. ind_loop b ord p ind idxs (pre @ replicate (length idxs * nd) 0, s) = Inr r"
  using assms(1,3,4,5)
proof (induction idxs arbitrary: ind pre s)
  case Nil
  show ?case by simp
next
  case (Cons index rest)
  show ?case
  proof (cases "index = 0")
    case True
    with Cons.prems(3) show ?thesis by simp
  next
    case False
    with Cons.prems(4) obtain lvl blk where
      lvl: "getPresLevelOfBasisFun b index = Inr lvl" "lvl < length (processed s)"
      and blk: "entry_block b ord p index = Inr blk"
      by auto
    from entry_step_total [OF Cons.prems(1) nd Cons.prems(2) lvl blk,
        of "replicate (length rest * nd) 0"]
    obtain s1 where step: "entry_step b ord p ind index
        (pre @ replicate nd 0 @ replicate (length rest * nd) 0, s) =
        Inr (pre @ blk @ replicate (length rest * nd) 0, s1)"
      by blast
    from entry_step_block [OF Cons.prems(1) nd Cons.prems(2) step]
    have ok1: "cache_ok b ord p s1" and len1: "length (processed s1) = length (processed s)"
      and lb: "length blk = nd"
      by auto
    have "\<exists>r. ind_loop b ord p (Suc ind) rest
        ((pre @ blk) @ replicate (length rest * nd) 0, s1) = Inr r"
      using Cons.prems(2,4) False lb len1 by (intro Cons.IH [OF ok1]) auto
    with step False show ?thesis by (simp add: replicate_add)
  qed
qed

lemma ind_loop_total:
  assumes ok: "cache_ok b ord p s" and nd: "nd = numDers ord (dim b)"
    and all: "\<forall>index \<in> set (processed_prefix idxs). \<exists>lvl blk.
           getPresLevelOfBasisFun b index = Inr lvl \<and> lvl < length (processed s) \<and>
           entry_block b ord p index = Inr blk"
  shows "\<exists>r. ind_loop b ord p 0 idxs (replicate (length idxs * nd) 0, s) = Inr r"
proof (cases idxs)
  case Nil
  then show ?thesis by simp
next
  case (Cons index rest)
  with all obtain lvl blk where
    lvl: "getPresLevelOfBasisFun b index = Inr lvl" "lvl < length (processed s)"
    and blk: "entry_block b ord p index = Inr blk"
    by (auto simp: processed_prefix_def)
  from entry_step_total [OF ok nd _ lvl blk, of "[]" 0 "replicate (length rest * nd) 0"]
  obtain s1 where step: "entry_step b ord p 0 index
      ([] @ replicate nd 0 @ replicate (length rest * nd) 0, s) =
      Inr ([] @ blk @ replicate (length rest * nd) 0, s1)"
    by auto
  from entry_step_block [OF ok nd _ step]
  have ok1: "cache_ok b ord p s1" and len1: "length (processed s1) = length (processed s)"
    and lb: "length blk = nd"
    by auto
  have "\<exists>r. ind_loop b ord p (Suc 0) rest (blk @ replicate (length rest * nd) 0, s1) = Inr r"
    using all lb len1 Cons by (intro ind_loop_total_tail [OF ok1 nd]) (auto simp: processed_prefix_def)
  with step Cons show ?thesis by (simp add: replicate_add)
qed

lemma ind_loop_length:
  "ind_loop b ord p ind idxs st = Inr st' \<Longrightarrow>
     length (processed (snd st')) = length (processed (snd st))"
proof (induction idxs arbitrary: ind st)
  case Nil
  then show ?case by simp
next
  case (Cons index rest)
  show ?case
  proof (cases "ind \<noteq> 0 \<and> index = 0")
    case True
    with Cons.prems show ?thesis by simp
  next
    case False
    with Cons.prems obtain st1 where step: "entry_step b ord p ind index st = Inr st1"
      and loop: "ind_loop b ord p (Suc ind) rest st1 = Inr st'"
      by (auto simp: bind_err_Inr_iff)
    from Cons.IH [OF loop] entry_step_length [OF step] show ?thesis by simp
  qed
qed

lemma pt_loop_total:
  assumes "length (tmpResults s) = length (processed s)"
    and "length (tmpActive s) = length (processed s)"
    and nd: "nd = numDers ord (dim b)"
    and "\<forall>pc \<in> set pcs. length (snd pc) = n \<and>
           (\<forall>index \<in> set (processed_prefix (snd pc)). \<exists>lvl blk.
              getPresLevelOfBasisFun b index = Inr lvl \<and> lvl < length (processed s) \<and>
              entry_block b ord (fst pc) index = Inr blk)"
  shows "\<exists>cols. pt_loop b ord n pcs s = Inr cols"
  using assms(1,2,4)
proof (induction pcs arbitrary: s)
  case Nil
  show ?case by simp
next
  case (Cons pc rest)
  let ?s0 = "s\<lparr>processed := replicate (length (processed s)) 0\<rparr>"
  have ok0: "cache_ok b ord (fst pc) ?s0"
    using Cons.prems(1,2) by (rule cache_ok_reset)
  have n: "length (snd pc) = n" using Cons.prems(3) by simp
  have "\<exists>r. ind_loop b ord (fst pc) 0 (snd pc) (replicate (length (snd pc) * nd) 0, ?s0) = Inr r"
    using Cons.prems(3) by (intro ind_loop_total [OF ok0 nd]) simp
  then obtain col' s' where
    loop: "ind_loop b ord (fst pc) 0 (snd pc) (replicate (n * nd) 0, ?s0) = Inr (col', s')"
    unfolding n by auto
  from ind_loop_collect [OF ok0 nd, of "snd pc" col' s'] loop n
  have ok': "cache_ok b ord (fst pc) s'" by auto
  from ind_loop_length [OF loop] have len': "length (processed s') = length (processed s)"
    by simp
  have "\<exists>cols. pt_loop b ord n rest s' = Inr cols"
    using ok' len' Cons.prems(3) by (intro Cons.IH) (auto simp: cache_ok_def)
  with loop show ?case by (auto simp: nd)
qed

lemma fast_into_total:
  assumes "evaluable b ord u"
  shows "\<exists>M. fast_into b ord u = Inr M"
proof -
  define nd where "nd = numDers ord (dim b)"
  let ?s = "\<lparr>tmpResults = replicate (getMaxInsLevel b + 1) ([]::'a list),
             tmpActive = replicate (getMaxInsLevel b + 1) [],
             processed = replicate (getMaxInsLevel b + 1) 0\<rparr>"
  have "\<forall>pc \<in> set (zip u (columns (active_into b u))).
          length (snd pc) = rows (active_into b u) \<and>
           (\<forall>index \<in> set (processed_prefix (snd pc)). \<exists>lvl blk.
              getPresLevelOfBasisFun b index = Inr lvl \<and> lvl < length (processed ?s) \<and>
              entry_block b ord (fst pc) index = Inr blk)"
  proof
    fix pc assume pc: "pc \<in> set (zip u (columns (active_into b u)))"
    then obtain k where k: "k < length u" and pc_eq: "pc = (u ! k, columns (active_into b u) ! k)"
      by (auto simp: set_zip)
    define p where "p = u ! k"
    from k have pu: "p \<in> set u" by (simp add: p_def)
    from k have col: "snd pc = activeFunctions b p @
        replicate (rows (active_into b u) - length (activeFunctions b p)) 0"
      by (simp add: pc_eq columns_active_into p_def)
    from assms pu have ne: "activeFunctions b p \<noteq> []" and z: "0 \<notin> set (tl (activeFunctions b p))"
      and rng: "\<forall>index \<in> set (activeFunctions b p). entry_in_range b ord p index"
      by (auto simp: evaluable_def)
    have pp: "processed_prefix (snd pc) = activeFunctions b p"
      unfolding col using ne z by (rule processed_prefix_padded)
    have "snd pc \<in> set (columns (active_into b u))"
      using k by (simp add: pc_eq columns_active_into)
    then have len: "length (snd pc) = rows (active_into b u)"
      by (rule length_column_active_into)
    have "\<exists>lvl blk. getPresLevelOfBasisFun b index = Inr lvl \<and> lvl < length (processed ?s) \<and>
              entry_block b ord (fst pc) index = Inr blk"
      if "index \<in> set (processed_prefix (snd pc))" for index
    proof -
      from that pp rng have "entry_in_range b ord p index" by simp
      from entry_in_range_block [OF this] show ?thesis
        by (auto simp: pc_eq p_def)
    qed
    with len show "length (snd pc) = rows (active_into b u) \<and>
           (\<forall>index \<in> set (processed_prefix (snd pc)). \<exists>lvl blk.
              getPresLevelOfBasisFun b index = Inr lvl \<and> lvl < length (processed ?s) \<and>
              entry_block b ord (fst pc) index = Inr blk)"
      by blast
  qed
  from pt_loop_total [OF _ _ nd_def this]
  obtain cols where
    "pt_loop b ord (rows (active_into b u)) (zip u (columns (active_into b u))) ?s = Inr cols"
    by auto
  then show ?thesis by (simp add: fast_into_def Let_def)
qed

section \<open>The result does not depend on the scratch vectors\<close>

lemma fill_level_same:
  assumes "same_cache s t"
  shows "rel_sum (=) (\<lambda>s' t'. same_cache s' t' \<and>
            at (tmpResults s') lvl = at (tmpResults t') lvl \<and>
            at (tmpActive s') lvl = at (tmpActive t') lvl)
           (fill_level b ord p lvl s) (fill_level b ord p lvl t)"
proof (cases "lvl < length (processed s)")
  case False
  with assms show ?thesis
    by (simp add: fill_level_def at_def same_cache_def)
next
  case lvl: True
  show ?thesis
  proof (cases "processed s ! lvl = 0")
    case True
    show ?thesis
    proof (cases "lvl < length (m_bases b)")
      case False
      with assms lvl True show ?thesis
        by (simp add: fill_level_def at_def same_cache_def)
    next
      case B: True
      with assms lvl True show ?thesis
        by (auto simp: fill_level_def at_def same_cache_def nth_list_update)
    qed
  next
    case False
    with assms lvl show ?thesis
      by (auto simp: fill_level_def at_def same_cache_def)
  qed
qed

lemma bind_err_rel:
  assumes "rel_sum (=) R m n" and "\<And>x y. R x y \<Longrightarrow> rel_sum (=) Q (f x) (g y)"
  shows "rel_sum (=) Q (bind_err m f) (bind_err n g)"
  using assms by (cases m; cases n) auto

lemma bind_err_rel_same:
  assumes "\<And>x. rel_sum (=) Q (f x) (g x)"
  shows "rel_sum (=) Q (bind_err m f) (bind_err m g)"
  using assms by (cases m) auto

lemma entry_step_same:
  fixes b :: "('a::{zero,plus,times}, 'p) gsTHBSplineBasis" and s t :: "'a scratch"
  assumes "same_cache s t"
  shows "rel_sum (=) (\<lambda>x y. fst x = fst y \<and> same_cache (snd x) (snd y))
           (entry_step b ord p ind index (col, s)) (entry_step b ord p ind index (col, t))"
  unfolding entry_step_def Let_def fst_conv snd_conv
proof (intro bind_err_rel_same bind_err_rel [OF fill_level_same [OF assms]], elim conjE)
  fix lvl flag and s' t' :: "'a scratch"
  assume same: "same_cache s' t'"
    and r: "at (tmpResults s') lvl = at (tmpResults t') lvl"
    and a: "at (tmpActive s') lvl = at (tmpActive t') lvl"
  show "rel_sum (=) (\<lambda>x y. fst x = fst y \<and> same_cache (snd x) (snd y))
     (bind_err (at (tmpResults s') lvl) (\<lambda>basis. bind_err (at (tmpActive s') lvl) (\<lambda>active.
        if flag = - 1 then
          bind_err (block basis (localIndex_loop active (flatTensorIndexOf b index lvl) 0 *
             int (numDers ord (dim b))) (numDers ord (dim b))) (\<lambda>blk.
          bind_err (write_block col (ind * numDers ord (dim b)) blk) (\<lambda>col'. Inr (col', s')))
        else
          bind_err (getCoefs b index) (\<lambda>coefs.
            if ord = 0 then
              bind_err (truncated_value coefs active basis) (\<lambda>tmp.
              bind_err (write_block col ind [tmp]) (\<lambda>col'. Inr (col', s')))
            else
              bind_err (der_loop coefs active basis (numDers ord (dim b)) ind
                 [0..<numDers ord (dim b)] col) (\<lambda>col'. Inr (col', s'))))))
     (bind_err (at (tmpResults t') lvl) (\<lambda>basis. bind_err (at (tmpActive t') lvl) (\<lambda>active.
        if flag = - 1 then
          bind_err (block basis (localIndex_loop active (flatTensorIndexOf b index lvl) 0 *
             int (numDers ord (dim b))) (numDers ord (dim b))) (\<lambda>blk.
          bind_err (write_block col (ind * numDers ord (dim b)) blk) (\<lambda>col'. Inr (col', t')))
        else
          bind_err (getCoefs b index) (\<lambda>coefs.
            if ord = 0 then
              bind_err (truncated_value coefs active basis) (\<lambda>tmp.
              bind_err (write_block col ind [tmp]) (\<lambda>col'. Inr (col', t')))
            else
              bind_err (der_loop coefs active basis (numDers ord (dim b)) ind
                 [0..<numDers ord (dim b)] col) (\<lambda>col'. Inr (col', t'))))))"
    unfolding r a
    by (intro bind_err_rel_same) (auto intro!: bind_err_rel_same simp: same)
qed

lemma ind_loop_same:
  fixes b :: "('a::{zero,plus,times}, 'p) gsTHBSplineBasis" and s t :: "'a scratch"
  assumes "same_cache s t"
  shows "rel_sum (=) (\<lambda>x y. fst x = fst y \<and> same_cache (snd x) (snd y))
           (ind_loop b ord p ind idxs (col, s)) (ind_loop b ord p ind idxs (col, t))"
  using assms
proof (induction idxs arbitrary: ind col s t)
  case Nil
  then show ?case by simp
next
  case (Cons index rest)
  show ?case
  proof (cases "ind \<noteq> 0 \<and> index = 0")
    case True
    with Cons.prems show ?thesis by simp
  next
    case False
    then have eq: "ind_loop b ord p ind (index # rest) st =
        bind_err (entry_step b ord p ind index st) (ind_loop b ord p (Suc ind) rest)" for st
      by auto
    show ?thesis
      unfolding eq
    proof (rule bind_err_rel [OF entry_step_same [OF Cons.prems]])
      fix x y :: "'a list \<times> 'a scratch"
      assume xy: "fst x = fst y \<and> same_cache (snd x) (snd y)"
      obtain c s' where x: "x = (c, s')" by (cases x)
      obtain c' t' where y: "y = (c', t')" by (cases y)
      from xy x y have "c' = c" and "same_cache s' t'" by simp_all
      with Cons.IH [of s' t' "Suc ind" c] x y
      show "rel_sum (=) (\<lambda>x y. fst x = fst y \<and> same_cache (snd x) (snd y))
              (ind_loop b ord p (Suc ind) rest x) (ind_loop b ord p (Suc ind) rest y)"
        by simp
    qed
  qed
qed

lemma same_cache_reset:
  assumes "length (tmpResults s) = length (processed s)"
    and "length (tmpActive s) = length (processed s)"
    and "length (tmpResults t) = length (processed s)"
    and "length (tmpActive t) = length (processed s)"
    and "length (processed t) = length (processed s)"
  shows "same_cache (s\<lparr>processed := replicate (length (processed s)) 0\<rparr>)
           (t\<lparr>processed := replicate (length (processed t)) 0\<rparr>)"
  using assms by (simp add: same_cache_def)

lemma pt_loop_same:
  fixes b :: "('a::{zero,plus,times}, 'p) gsTHBSplineBasis" and s t :: "'a scratch"
  assumes "length (tmpResults s) = length (processed s)"
    and "length (tmpActive s) = length (processed s)"
    and "length (tmpResults t) = length (processed s)"
    and "length (tmpActive t) = length (processed s)"
    and "length (processed t) = length (processed s)"
  shows "pt_loop b ord n pcs s = pt_loop b ord n pcs t"
  using assms
proof (induction pcs arbitrary: s t)
  case Nil
  show ?case by simp
next
  case (Cons pc rest)
  let ?s0 = "s\<lparr>processed := replicate (length (processed s)) 0\<rparr>"
  let ?t0 = "t\<lparr>processed := replicate (length (processed t)) 0\<rparr>"
  let ?col = "replicate (n * numDers ord (dim b)) (0::'a)"
  have same0: "same_cache ?s0 ?t0"
    using Cons.prems by (rule same_cache_reset)
  from ind_loop_same [OF same0, of b ord "fst pc" 0 "snd pc" ?col]
  show ?case
  proof (cases "ind_loop b ord (fst pc) 0 (snd pc) (?col, ?s0)";
         cases "ind_loop b ord (fst pc) 0 (snd pc) (?col, ?t0)")
    fix x y
    assume x: "ind_loop b ord (fst pc) 0 (snd pc) (?col, ?s0) = Inr x"
      and y: "ind_loop b ord (fst pc) 0 (snd pc) (?col, ?t0) = Inr y"
      and "rel_sum (=) (\<lambda>x y. fst x = fst y \<and> same_cache (snd x) (snd y))
             (ind_loop b ord (fst pc) 0 (snd pc) (?col, ?s0))
             (ind_loop b ord (fst pc) 0 (snd pc) (?col, ?t0))"
    then have f: "fst x = fst y" and same: "same_cache (snd x) (snd y)" by simp_all
    have "pt_loop b ord n rest (snd x) = pt_loop b ord n rest (snd y)"
      using same by (intro Cons.IH) (simp_all add: same_cache_def)
    with x y f show ?thesis by simp
  qed simp_all
qed

text \<open>
  C7. A call of \<open>fastEval_into\<close>, \<open>fastDeriv_into\<close> or \<open>fastDeriv2_into\<close> returns the same
  outcome, matrix or failure, whatever its scratch vectors hold when its loops begin (the
  uninitialised \<open>processed\<close>, or the values an earlier call left): the outcome is a
  function of the basis, the order and the points alone, so two calls on the same basis
  with the same points return identical matrices.
\<close>

theorem fast_evaluators_deterministic:
  fixes b :: "('a::{zero,plus,times}, 'p) gsTHBSplineBasis" and s t :: "'a scratch"
  assumes "scratch_sized b s" and "scratch_sized b t"
  shows "fast_from b ord u s = fast_from b ord u t \<and>
         fastEval_into b u = fast_from b 0 u s \<and>
         fastDeriv_into b u = fast_from b 1 u s \<and>
         fastDeriv2_into b u = fast_from b 2 u s"
proof -
  have eq: "fast_from b k u s' = fast_from b k u t'"
    if "scratch_sized b s'" and "scratch_sized b t'" for k and s' t' :: "'a scratch"
    unfolding fast_from_def Let_def
    using that by (subst pt_loop_same [of s' t']) (simp_all add: scratch_sized_def)
  let ?fresh = "\<lparr>tmpResults = replicate (getMaxInsLevel b + 1) ([]::'a list),
                 tmpActive = replicate (getMaxInsLevel b + 1) [],
                 processed = replicate (getMaxInsLevel b + 1) 0\<rparr>"
  have fresh: "scratch_sized b ?fresh" by (simp add: scratch_sized_def)
  have into: "fast_into b k u = fast_from b k u ?fresh" for k
    by (simp add: fast_into_def fast_from_def Let_def)
  show ?thesis
    using eq [OF assms] eq [OF fresh assms(1)]
    by (simp add: fastEval_into_def fastDeriv_into_def fastDeriv2_into_def into)
qed

theorem fast_evaluators_deterministic_witness:
  "scratch_sized ex_basis ex_scratch \<and> scratch_sized ex_basis ex_scratch' \<and>
   fast_from ex_basis 0 [0, 1] ex_scratch = Inr (Matrix 3 [[1, 0, 0], [43, 2, 3]]) \<and>
   fast_from ex_basis 0 [0, 1] ex_scratch' = Inr (Matrix 3 [[1, 0, 0], [43, 2, 3]]) \<and>
   fastEval_into ex_basis [0, 1] = Inr (Matrix 3 [[1, 0, 0], [43, 2, 3]])"
proof -
  have sized: "scratch_sized ex_basis ex_scratch" "scratch_sized ex_basis ex_scratch'"
    by (simp_all add: scratch_sized_def ex_basis_def ex_scratch_def ex_scratch'_def)
  have run: "fast_from ex_basis 0 [0, 1] ex_scratch = Inr (Matrix 3 [[1, 0, 0], [43, 2, 3]])"
    by code_simp
  from fast_evaluators_deterministic [OF sized, of 0 "[0, 1]"] run sized
  show ?thesis by simp
qed

section \<open>The cache after a rebuild\<close>

lemma truncation_loop_level:
  "truncation_loop h maxL k coefs tr = (lvl, c, t) \<Longrightarrow> k < lvl \<and> (k < maxL \<longrightarrow> lvl \<le> maxL)"
proof (induction h maxL k coefs tr rule: truncation_loop.induct)
  case (1 h maxL k coefs tr)
  let ?fine = "knotInsertion h k coefs"
  let ?zeroed = "filter (\<lambda>jc. activeAt h (Suc k) (fst jc)) ?fine"
  let ?kept = "filter (\<lambda>jc. \<not> activeAt h (Suc k) (fst jc)) ?fine"
  define again where
    "again \<longleftrightarrow> Suc k < maxL \<and> (\<exists>jc \<in> set ?zeroed. refinedAgain h (Suc k) (fst jc))"
  have unfold: "truncation_loop h maxL k coefs tr =
      (if again then truncation_loop h maxL (Suc k) ?kept (tr \<or> ?zeroed \<noteq> [])
       else (Suc k, ?kept, tr \<or> ?zeroed \<noteq> []))"
    unfolding again_def by (subst truncation_loop.simps) (simp only: Let_def)
  show ?case
  proof (cases again)
    case True
    with "1.prems" have
      "truncation_loop h maxL (Suc k) ?kept (tr \<or> ?zeroed \<noteq> []) = (lvl, c, t)"
      unfolding unfold by simp
    from "1.IH" [OF refl refl refl refl True [unfolded again_def] this] True
    show ?thesis by (simp add: again_def)
  next
    case False
    with "1.prems" have "lvl = Suc k"
      unfolding unfold by simp
    then show ?thesis by auto
  qed
qed

lemma represent_function_level:
  assumes "represent_function h b j = Inr (Truncated lvl coefs)"
  shows "levelOf b j < lvl \<and> lvl \<le> getMaxInsLevel b"
proof -
  from assms have k: "levelOf b j < getMaxInsLevel b"
    by (auto simp: represent_function_def Let_def split: if_splits)
  obtain l c t where tl: "truncation_loop h (getMaxInsLevel b) (levelOf b j)
      [(flatTensorIndexOf b j (levelOf b j), 1)] False = (l, c, t)"
    by (cases "truncation_loop h (getMaxInsLevel b) (levelOf b j)
      [(flatTensorIndexOf b j (levelOf b j), 1)] False") auto
  with assms k have "l = lvl"
    by (auto simp: represent_function_def Let_def split: if_splits)
  with truncation_loop_level [OF tl] k show ?thesis by simp
qed

lemma represent_from_flags:
  assumes "represent_from h b js = Inr (flags, m)"
  shows "length flags = length js \<and>
         map fst m = map fst (filter (\<lambda>jf. snd jf \<noteq> - 1) (zip js flags)) \<and>
         list_all2 (\<lambda>j f. f = - 1 \<or> (int (levelOf b j) < f \<and> f \<le> int (getMaxInsLevel b)))
           js flags"
  using assms
proof (induction js arbitrary: flags m)
  case Nil
  then show ?case by simp
next
  case (Cons j js)
  from Cons.prems obtain pres r0 where
    pres: "represent_function h b j = Inr pres"
    and rest0: "represent_from h b js = Inr r0"
    and r0: "(case pres of Native \<Rightarrow> Inr (- 1 # fst r0, snd r0)
             | Truncated lvl coefs \<Rightarrow> Inr (int lvl # fst r0, (j, coefs) # snd r0)) =
            (Inr (flags, m) :: error + int list \<times> (nat \<times> 'a gsSparseVector) list)"
    by (auto simp: bind_err_Inr_iff)
  obtain flags' m' where r0_eq: "r0 = (flags', m')" by (cases r0)
  note rest = rest0 [unfolded r0_eq] and r = r0 [unfolded r0_eq fst_conv snd_conv]
  note IH = Cons.IH [OF rest]
  from IH have len: "length flags' = length js"
    and keys: "map fst m' = map fst (filter (\<lambda>jf. snd jf \<noteq> - 1) (zip js flags'))"
    and lv: "list_all2 (\<lambda>j f. f = - 1 \<or> (int (levelOf b j) < f \<and> f \<le> int (getMaxInsLevel b)))
           js flags'"
    by blast+
  show ?case
  proof (cases pres)
    case Native
    with r have "flags = - 1 # flags'" and "m = m'" by simp_all
    with len keys lv show ?thesis by simp
  next
    case (Truncated lvl coefs)
    with pres have "levelOf b j < lvl \<and> lvl \<le> getMaxInsLevel b"
      by (intro represent_function_level) simp
    moreover from Truncated r have "flags = int lvl # flags'" and "m = (j, coefs) # m'"
      by simp_all
    ultimately show ?thesis using len keys lv by simp
  qed
qed


lemma filter_zip_upt:
  assumes "length flags = n"
  shows "map fst (filter (\<lambda>jf. P (snd jf)) (zip [0..<n] flags)) = filter (\<lambda>i. P (flags ! i)) [0..<n]"
proof -
  have "zip [0..<n] flags = map (\<lambda>i. (i, flags ! i)) [0..<n]"
    using assms by (intro nth_equalityI) auto
  then show ?thesis by (simp add: filter_map comp_def)
qed

lemma representBasis_flags:
  assumes "representBasis h b = Inr b'"
  shows "length (m_is_truncated b') = numFunctions h \<and>
         map fst (m_presentation b') =
           filter (\<lambda>i. m_is_truncated b' ! i \<noteq> - 1) [0..<numFunctions h] \<and>
         (\<forall>i < numFunctions h. m_is_truncated b' ! i = - 1 \<or>
            (int (levelOf b i) < m_is_truncated b' ! i \<and>
             m_is_truncated b' ! i \<le> int (getMaxInsLevel b))) \<and>
         levelOf b' = levelOf b \<and> getMaxInsLevel b' = getMaxInsLevel b"
proof -
  from assms obtain flags m where
    r: "represent_from h b [0..<numFunctions h] = Inr (flags, m)"
    and b': "b' = b\<lparr>m_is_truncated := flags, m_presentation := m\<rparr>"
    by (auto simp: representBasis_def bind_err_Inr_iff)
  from represent_from_flags [OF r]
  have len: "length flags = numFunctions h"
    and keys: "map fst m = map fst (filter (\<lambda>jf. snd jf \<noteq> - 1) (zip [0..<numFunctions h] flags))"
    and lv: "list_all2 (\<lambda>j f. f = - 1 \<or> (int (levelOf b j) < f \<and> f \<le> int (getMaxInsLevel b)))
           [0..<numFunctions h] flags"
    by simp_all
  have "\<forall>i < numFunctions h. flags ! i = - 1 \<or>
            (int (levelOf b i) < flags ! i \<and> flags ! i \<le> int (getMaxInsLevel b))"
    using list_all2_nthD [OF lv] by auto
  with len keys b' show ?thesis
    by (simp add: filter_zip_upt [OF len, of "\<lambda>f. f \<noteq> - 1"])
qed

lemma ex_represent_from:
  "represent_from ex_structure ex_basis [0, 1, 2, 3, 4, 5] =
     Inr ([- 1, 1, - 1, - 1, - 1, - 1], [(1, [(2, 5), (3, 7)])])"
  by code_simp

lemma ex_representBasis: "representBasis ex_structure ex_basis = Inr ex_basis"
proof -
  have "numFunctions ex_structure = 6" by (simp add: ex_structure_def)
  moreover have "[0..<6] = [0, 1, 2, 3, 4, 5::nat]" by (simp add: upt_rec)
  ultimately show ?thesis
    unfolding representBasis_def by (simp only: ex_represent_from) (simp add: ex_basis_def)
qed

text \<open>
  C8. After a rebuild of the truncation cache by \<open>representBasis\<close>, for every basis
  function id \<open>i\<close>: \<open>isTruncated i\<close> is true if and only if \<open>m_presentation\<close> stores a
  coefficient entry for \<open>i\<close>; and \<open>numTruncated\<close> is the number of ids for which
  \<open>isTruncated\<close> is true.
\<close>

theorem representBasis_cache_consistent:
  assumes "representBasis h b = Inr b'"
  shows "(\<forall>i < length (m_is_truncated b').
            isTruncated b' i = Inr (map_of (m_presentation b') i \<noteq> None)) \<and>
         numTruncated b' =
           card {i. i < length (m_is_truncated b') \<and> isTruncated b' i = Inr True}"
proof -
  from representBasis_flags [OF assms]
  have len: "length (m_is_truncated b') = numFunctions h"
    and keys: "map fst (m_presentation b') =
           filter (\<lambda>i. m_is_truncated b' ! i \<noteq> - 1) [0..<numFunctions h]"
    by simp_all
  have dom: "(map_of (m_presentation b') i \<noteq> None) =
             (i < numFunctions h \<and> m_is_truncated b' ! i \<noteq> - 1)" for i
  proof -
    have "(map_of (m_presentation b') i \<noteq> None) = (i \<in> set (map fst (m_presentation b')))"
      by (simp add: map_of_eq_None_iff)
    then show ?thesis unfolding keys by auto
  qed
  have first: "\<forall>i < length (m_is_truncated b').
            isTruncated b' i = Inr (map_of (m_presentation b') i \<noteq> None)"
    using len dom by (auto simp: isTruncated_def at_def)
  have "{i. i < length (m_is_truncated b') \<and> isTruncated b' i = Inr True} =
        set (map fst (m_presentation b'))"
    unfolding keys using len by (auto simp: isTruncated_def at_def)
  moreover have "distinct (map fst (m_presentation b'))"
    unfolding keys by simp
  ultimately have "card {i. i < length (m_is_truncated b') \<and> isTruncated b' i = Inr True} =
        length (m_presentation b')"
    using distinct_card [of "map fst (m_presentation b')"] by simp
  then have "numTruncated b' =
      card {i. i < length (m_is_truncated b') \<and> isTruncated b' i = Inr True}"
    by (simp only: numTruncated_def)
  with first show ?thesis by (rule conjI)
qed

theorem representBasis_cache_consistent_witness:
  "representBasis ex_structure ex_basis = Inr ex_basis \<and>
   isTruncated ex_basis 1 = Inr True \<and> map_of (m_presentation ex_basis) 1 \<noteq> None \<and>
   isTruncated ex_basis 2 = Inr False \<and> map_of (m_presentation ex_basis) 2 = None \<and>
   numTruncated ex_basis = 1 \<and>
   card {i. i < length (m_is_truncated ex_basis) \<and> isTruncated ex_basis i = Inr True} = 1"
proof -
  have n: "numTruncated ex_basis = 1"
    by (simp add: numTruncated_def ex_basis_def)
  have acc: "isTruncated ex_basis 1 = Inr True" "map_of (m_presentation ex_basis) 1 \<noteq> None"
    "isTruncated ex_basis 2 = Inr False" "map_of (m_presentation ex_basis) 2 = None"
    by (simp_all add: isTruncated_def at_def ex_basis_def)
  from representBasis_cache_consistent [OF ex_representBasis]
  have "numTruncated ex_basis =
      card {i. i < length (m_is_truncated ex_basis) \<and> isTruncated ex_basis i = Inr True}"
    by (rule conjunct2)
  then have "card {i. i < length (m_is_truncated ex_basis) \<and> isTruncated ex_basis i = Inr True} = 1"
    unfolding n by (rule sym)
  with ex_representBasis n acc show ?thesis by (intro conjI)
qed

text \<open>
  C9. In a rebuilt basis, for every basis function id: the presentation level that
  \<open>getPresLevelOfBasisFun\<close> gives the evaluators is the native level \<open>levelOf\<close> when the
  function is not truncated (flag \<open>-1\<close>), and the stored flag otherwise; the flag of a
  truncated function is positive (never \<open>0\<close>) and above the native level, so its
  presentation level is at least \<open>1\<close>. Levels fit the \<^verbatim>\<open>int\<close> that stores them.
\<close>

theorem presentation_level_of_rebuilt_basis:
  assumes "representBasis h b = Inr b'" and "getMaxInsLevel b < 2 ^ 31"
    and "index < length (m_is_truncated b')"
  shows "(isTruncated b' index = Inr False \<longrightarrow>
            m_is_truncated b' ! index = - 1 \<and>
            getPresLevelOfBasisFun b' index = Inr (levelOf b' index)) \<and>
         (isTruncated b' index = Inr True \<longrightarrow>
            0 < m_is_truncated b' ! index \<and>
            getPresLevelOfBasisFun b' index = Inr (nat (m_is_truncated b' ! index)) \<and>
            levelOf b' index < nat (m_is_truncated b' ! index) \<and>
            1 \<le> nat (m_is_truncated b' ! index))"
proof -
  from representBasis_flags [OF assms(1)] assms(3)
  have flag: "m_is_truncated b' ! index = - 1 \<or>
      (int (levelOf b index) < m_is_truncated b' ! index \<and>
       m_is_truncated b' ! index \<le> int (getMaxInsLevel b))"
    and lev: "levelOf b' = levelOf b"
    by simp_all
  show ?thesis
  proof (cases "m_is_truncated b' ! index = - 1")
    case True
    with assms(3) show ?thesis
      by (simp add: isTruncated_def getPresLevelOfBasisFun_def at_def)
  next
    case False
    define f where "f = m_is_truncated b' ! index"
    from False flag have pos: "int (levelOf b index) < f"
      and le: "f \<le> int (getMaxInsLevel b)"
      by (simp_all add: f_def)
    have "int (getMaxInsLevel b) < 2 ^ 31"
      using assms(2) by (metis of_nat_less_iff of_nat_numeral of_nat_power)
    with le have "f < 2 ^ 32" by simp
    moreover from pos have f0: "0 \<le> f" by simp
    ultimately have modeq: "f mod 2 ^ 32 = f" by (rule mod_pos_pos_trivial [rotated])
    have tr: "isTruncated b' index = Inr True"
      using False assms(3) by (simp add: isTruncated_def at_def)
    from modeq have modeq': "f mod 4294967296 = f" by simp
    have gp: "getPresLevelOfBasisFun b' index = Inr (nat f)"
      using False assms(3) modeq' by (simp add: getPresLevelOfBasisFun_def at_def flip: f_def)
    have lv: "levelOf b' index < nat f"
      using pos lev by (simp add: zless_nat_eq_int_zless)
    then have "0 < f" and "1 \<le> nat f" by simp_all
    with tr gp lv show ?thesis by (simp flip: f_def)
  qed
qed

theorem presentation_level_of_rebuilt_basis_witness:
  "representBasis ex_structure ex_basis = Inr ex_basis \<and>
   getMaxInsLevel ex_basis < 2 ^ 31 \<and> 1 < length (m_is_truncated ex_basis) \<and>
   isTruncated ex_basis 1 = Inr True \<and> m_is_truncated ex_basis ! 1 = 1 \<and>
   getPresLevelOfBasisFun ex_basis 1 = Inr 1 \<and> levelOf ex_basis 1 = 0 \<and>
   isTruncated ex_basis 0 = Inr False \<and> m_is_truncated ex_basis ! 0 = - 1 \<and>
   getPresLevelOfBasisFun ex_basis 0 = Inr (levelOf ex_basis 0)"
proof -
  have h: "getMaxInsLevel ex_basis < 2 ^ 31" "1 < length (m_is_truncated ex_basis)"
    "0 < length (m_is_truncated ex_basis)"
    by (simp_all add: ex_basis_def)
  have acc: "isTruncated ex_basis 1 = Inr True" "m_is_truncated ex_basis ! 1 = 1"
    "levelOf ex_basis 1 = 0" "isTruncated ex_basis 0 = Inr False"
    by (simp_all add: isTruncated_def at_def ex_basis_def)
  from presentation_level_of_rebuilt_basis [OF ex_representBasis h(1) h(2)] acc
  have one: "getPresLevelOfBasisFun ex_basis 1 = Inr 1"
    by simp
  from presentation_level_of_rebuilt_basis [OF ex_representBasis h(1) h(3)] acc
  have zero: "m_is_truncated ex_basis ! 0 = - 1 \<and>
        getPresLevelOfBasisFun ex_basis 0 = Inr (levelOf ex_basis 0)"
    by simp
  from ex_representBasis h(1,2) acc one zero show ?thesis by (intro conjI) simp_all
qed

section \<open>Rejected refinement requests\<close>

lemma levelAt_refine:
  assumes "refine h bx t = (Inr (), h')"
  shows "levelAt h' c = (if cell_in c bx then max (levelAt h c) t else levelAt h c)"
  using assms
  by (auto simp: refine_def levelAt_def max.commute split: if_splits option.splits)

text \<open>
  C5. \<open>refine box targetLevel\<close> fails with \<open>StructuralError\<close> whenever \<open>box\<close> is not
  inside the domain, or \<open>targetLevel\<close> is not exactly one level finer than the coarsest
  level of a cell of \<open>box\<close>; the hierarchy after such a call is the hierarchy before
  it.
\<close>

theorem refine_rejects_and_leaves_unchanged:
  assumes "\<not> box_inside bx (domainBox h) \<or>
           (\<forall>l. coarsestLevel h bx = Some l \<longrightarrow> targetLevel \<noteq> Suc l)"
  shows "refine h bx targetLevel = (Inl StructuralError, h)"
  using assms by (auto simp: refine_def split: option.splits)

theorem refine_rejects_and_leaves_unchanged_witness:
  "coarsestLevel ex_hierarchy ([3, 3], [5, 5]) = Some 1 \<and>
   refine ex_hierarchy ([3, 3], [5, 5]) 3 = (Inl StructuralError, ex_hierarchy) \<and>
   \<not> box_inside ([3, 3], [9, 5]) (domainBox ex_hierarchy) \<and>
   refine ex_hierarchy ([3, 3], [9, 5]) 2 = (Inl StructuralError, ex_hierarchy) \<and>
   fst (refine ex_hierarchy ([3, 3], [5, 5]) 2) = Inr ()"
proof -
  have c: "coarsestLevel ex_hierarchy ([3, 3], [5, 5]) = Some 1"
    by code_simp
  have out: "\<not> box_inside ([3, 3], [9, 5]) (domainBox ex_hierarchy)"
    by code_simp
  have ok: "fst (refine ex_hierarchy ([3, 3], [5, 5]) 2) = Inr ()"
    by code_simp
  from c have "\<forall>l. coarsestLevel ex_hierarchy ([3, 3], [5, 5]) = Some l \<longrightarrow> (3::nat) \<noteq> Suc l"
    by simp
  then have r1: "refine ex_hierarchy ([3, 3], [5, 5]) 3 = (Inl StructuralError, ex_hierarchy)"
    by (intro refine_rejects_and_leaves_unchanged) simp
  have r2: "refine ex_hierarchy ([3, 3], [9, 5]) 2 = (Inl StructuralError, ex_hierarchy)"
    using out by (intro refine_rejects_and_leaves_unchanged) simp
  from c r1 out r2 ok show ?thesis by (intro conjI)
qed

end
